theory Spec2Isabelle
  imports Complex_Main "HOL-Library.AList" "HOL-Library.Multiset"
begin

unbundle bit_operations_syntax

section \<open>Python values, failures and containers\<close>

text \<open>
  The two clients (\<^verbatim>\<open>pc_client_maxcut.py\<close>, the console client, and
  \<^verbatim>\<open>pc_client_maxcutV2.py\<close>, the dashboard client) are embedded side by side.
  Python integers are \<^typ>\<open>int\<close>; a Python float is the \<^typ>\<open>real\<close> number it
  denotes, and float arithmetic rounds (see below); a raised exception is the \<open>Inl\<close>
  branch of a sum.
  A \<^verbatim>\<open>dict\<close> is an association list in insertion order whose keys are kept
  distinct by \<^const>\<open>AList.update\<close> and \<^const>\<open>AList.delete\<close>; \<^verbatim>\<open>len\<close> of it
  is the length of the list.
\<close>

datatype error = IndexError | ValueError

type_synonym edge = "int \<times> int \<times> real"

type_synonym ('k, 'v) dict = "('k \<times> 'v) list"

text \<open>Indexing an array with a Python integer: negative indices count from the end.\<close>

definition getitem :: "'a list \<Rightarrow> int \<Rightarrow> error + 'a" where
  "getitem xs i =
     (if 0 \<le> i \<and> i < int (length xs) then Inr (xs ! nat i)
      else if i < 0 \<and> - int (length xs) \<le> i then Inr (xs ! nat (int (length xs) + i))
      else Inl IndexError)"

text \<open>\<^verbatim>\<open>range(n)\<close> for a Python integer \<open>n\<close> (empty when \<open>n \<le> 0\<close>).\<close>

definition py_range :: "int \<Rightarrow> int list" where
  "py_range n = map int [0..<nat n]"

section \<open>Double-precision arithmetic\<close>

text \<open>
  An arithmetic operation on Python floats is the exact operation followed by rounding
  to the nearest number with a 53-bit significand, ties to the even significand, as in
  IEEE 754 binary64. \<open>binary_exponent x\<close> is the \<open>e\<close> with \<open>2^e \<le> |x| < 2^(e+1)\<close>; below
  \<open>2^-1022\<close> the spacing stays \<open>2^-1074\<close> (subnormal numbers). A float is the real number
  it denotes: the model is that of the code while no result reaches \<open>2^1024\<close> in
  magnitude (no infinity, no NaN), and it does not tell \<open>-0.0\<close> from \<open>0.0\<close>, which
  compare equal. \<open>format2\<close> is the number that the text of \<^verbatim>\<open>%.2f\<close> denotes.
\<close>

function bit_length :: "int \<Rightarrow> nat" where
  "bit_length n = (if n \<le> 0 then 0 else Suc (bit_length (n div 2)))"
  by pat_completeness auto
termination
  by (relation "measure nat") auto

declare bit_length.simps [simp del]

definition round_half_even :: "real \<Rightarrow> int" where
  "round_half_even q =
     (let f = \<lfloor>q\<rfloor>; d = q - of_int f
      in if d < 1 / 2 then f else if 1 / 2 < d then f + 1 else if even f then f else f + 1)"

definition binary_exponent :: "real \<Rightarrow> int" where
  "binary_exponent x =
     (let a = \<bar>x\<bar>
      in if 1 \<le> a then int (bit_length \<lfloor>a\<rfloor>) - 1
         else (let k = bit_length \<lfloor>1 / a\<rfloor> - 1
               in if 1 \<le> 2 ^ k * a then - int k else - int k - 1))"

definition pow2 :: "int \<Rightarrow> real" where
  "pow2 k = (if 0 \<le> k then 2 ^ nat k else 1 / 2 ^ nat (- k))"

definition fround :: "real \<Rightarrow> real" where
  "fround x =
     (if x = 0 then 0
      else (let u = pow2 (max (binary_exponent x - 52) (- 1074))
            in of_int (round_half_even (x / u)) * u))"

definition fadd :: "real \<Rightarrow> real \<Rightarrow> real" where
  "fadd x y = fround (x + y)"

definition fsub :: "real \<Rightarrow> real \<Rightarrow> real" where
  "fsub x y = fround (x - y)"

definition fmul :: "real \<Rightarrow> real \<Rightarrow> real" where
  "fmul x y = fround (x * y)"

definition fdiv :: "real \<Rightarrow> real \<Rightarrow> real" where
  "fdiv x y = fround (x / y)"

definition format2 :: "real \<Rightarrow> real" where
  "format2 x = of_int (round_half_even (x * 100)) / 100"

text \<open>A result that is a finite double: it has not overflowed to an infinity.\<close>

definition finite_double :: "real \<Rightarrow> bool" where
  "finite_double x = (\<bar>x\<bar> < 2 ^ 1024)"

section \<open>Helpers shared by both clients\<close>

text \<open>\<^verbatim>\<open>clamp_int\<close>, \<^verbatim>\<open>clamp_float\<close>: \<^verbatim>\<open>max(lo, min(hi, x))\<close>.\<close>

definition clamp_int :: "int \<Rightarrow> int \<Rightarrow> int \<Rightarrow> int" where
  "clamp_int x lo hi = max lo (min hi x)"

definition clamp_float :: "real \<Rightarrow> real \<Rightarrow> real \<Rightarrow> real" where
  "clamp_float x lo hi = max lo (min hi x)"

text \<open>\<^verbatim>\<open>bits_from_bmask\<close>: \<^verbatim>\<open>[(bmask >> i) & 1 for i in range(width)]\<close>.\<close>

definition bits_from_bmask :: "int \<Rightarrow> int \<Rightarrow> int list" where
  "bits_from_bmask bmask width = map (\<lambda>i. drop_bit i bmask AND 1) [0..<nat width]"

text \<open>
  \<^verbatim>\<open>maxcut_score\<close>: the loop over the edges with the running \<^verbatim>\<open>score\<close>, to which
  \<^verbatim>\<open>score += w\<close> adds in double arithmetic; an index out of range raises at the first
  edge that has one.
\<close>

fun maxcut_loop :: "int list \<Rightarrow> edge list \<Rightarrow> real \<Rightarrow> error + real" where
  "maxcut_loop bits [] score = Inr score"
| "maxcut_loop bits ((i, j, w) # es) score =
     (case getitem bits i of
        Inl e \<Rightarrow> Inl e
      | Inr bi \<Rightarrow>
          (case getitem bits j of
             Inl e \<Rightarrow> Inl e
           | Inr bj \<Rightarrow> maxcut_loop bits es (if bi \<noteq> bj then fadd score w else score)))"

definition maxcut_score :: "int list \<Rightarrow> edge list \<Rightarrow> error + real" where
  "maxcut_score bits edges = maxcut_loop bits edges 0"

text \<open>\<^verbatim>\<open>make_ring_edges\<close>: \<^verbatim>\<open>[(i, (i + 1) % n, float(w)) for i in range(n)]\<close>.\<close>

definition make_ring_edges :: "int \<Rightarrow> real \<Rightarrow> edge list" where
  "make_ring_edges n w = map (\<lambda>i. (i, (i + 1) mod n, w)) (py_range n)"

text \<open>
  The weights of the edges whose endpoint bits differ, in list order; their sum in
  double arithmetic from 0.0 in that order (\<open>cut_weight\<close>); and their exact sum
  (\<open>cut_sum\<close>), which is how the specification words the score.
\<close>

definition cut_list :: "int list \<Rightarrow> edge list \<Rightarrow> real list" where
  "cut_list bits edges =
     map (\<lambda>(i, j, w). w) (filter (\<lambda>(i, j, w). bits ! nat i \<noteq> bits ! nat j) edges)"

definition cut_weight :: "int list \<Rightarrow> edge list \<Rightarrow> real" where
  "cut_weight bits edges = foldl fadd 0 (cut_list bits edges)"

definition cut_sum :: "int list \<Rightarrow> edge list \<Rightarrow> real" where
  "cut_sum bits edges = sum_list (cut_list bits edges)"

text \<open>
  Weights for which every addition of the loop is exact, in whatever order: whole
  numbers whose absolute values add up to at most \<open>2^53\<close>.
\<close>

definition whole_weights :: "edge list \<Rightarrow> bool" where
  "whole_weights edges =
     (list_all (\<lambda>(i, j, w). w = of_int \<lfloor>w\<rfloor>) edges
      \<and> sum_list (map (\<lambda>(i, j, w). \<bar>w\<bar>) edges) \<le> 2 ^ 53)"

text \<open>No running sum of the loop over the weights \<open>ws\<close> overflows.\<close>

definition finite_sums :: "real list \<Rightarrow> bool" where
  "finite_sums ws =
     list_all (\<lambda>k. finite_double (foldl fadd 0 (take k ws))) [0..<Suc (length ws)]"

definition in_range :: "int list \<Rightarrow> edge list \<Rightarrow> bool" where
  "in_range bits edges =
     list_all (\<lambda>(i, j, w). 0 \<le> i \<and> i < int (length bits) \<and> 0 \<le> j \<and> j < int (length bits)) edges"

definition flip :: "int list \<Rightarrow> int list" where
  "flip bits = map (\<lambda>b. 1 - b) bits"

section \<open>The tick buffer\<close>

text \<open>
  \<^verbatim>\<open>tick_buffer\<close> maps a tick to the dict of its units. \<open>units_of\<close> reads
  \<^verbatim>\<open>tick_buffer[tick]\<close> (the empty dict for a tick that is absent); \<open>store\<close> is
  \<^verbatim>\<open>if tick not in tick_buffer: tick_buffer[tick] = {}\<close> followed by
  \<^verbatim>\<open>tick_buffer[tick][sidx] = value\<close>.
\<close>

type_synonym 'p tickbuf = "(int, (int, 'p) dict) dict"

definition units_of :: "'p tickbuf \<Rightarrow> int \<Rightarrow> (int, 'p) dict" where
  "units_of buf tick = (case map_of buf tick of None \<Rightarrow> [] | Some d \<Rightarrow> d)"

definition store :: "int \<Rightarrow> int \<Rightarrow> 'p \<Rightarrow> 'p tickbuf \<Rightarrow> 'p tickbuf" where
  "store tick sidx p buf =
     (case map_of buf tick of
        None \<Rightarrow> AList.update tick (AList.update sidx p []) (AList.update tick [] buf)
      | Some d \<Rightarrow> AList.update tick (AList.update sidx p d) buf)"

text \<open>
  The cleanup of old ticks:
  \<^verbatim>\<open>if len(tick_buffer) > 50: for old in sorted(tick_buffer.keys())[:-20]: tick_buffer.pop(old, None)\<close>.
\<close>

definition oldest :: "'p tickbuf \<Rightarrow> int list" where
  "oldest buf = (let ks = sort (map fst buf) in take (length ks - 20) ks)"

definition cleanup :: "'p tickbuf \<Rightarrow> 'p tickbuf" where
  "cleanup buf = (if length buf > 50 then fold AList.delete (oldest buf) buf else buf)"

text \<open>\<^verbatim>\<open>np.concatenate\<close> of a list of one-dimensional arrays; it raises on the empty list.\<close>

definition concatenate :: "int list list \<Rightarrow> error + int list" where
  "concatenate vec = (if vec = [] then Inl ValueError else Inr (concat vec))"

text \<open>A scored tick: the dashboard's \<^verbatim>\<open>{'tick': .., 'score': .., 'bits': ..}\<close>.\<close>

record sample =
  s_tick :: int
  s_score :: real
  s_bits :: "int list"

text \<open>
  The commands written to the serial link. \<open>Param\<close> carries the number that the
  \<^verbatim>\<open>%.2f\<close> text of the temperature denotes (so \<^verbatim>\<open>-0.00\<close> and \<^verbatim>\<open>0.00\<close> are one
  command here), then bias, coupling and mode.
\<close>

datatype command = Hello | Param real int int int | Get int int int

section \<open>Reading a data line\<close>

text \<open>\<^verbatim>\<open>line.split(",")\<close> and \<^verbatim>\<open>line.startswith(p)\<close>.\<close>

fun split_comma :: "string \<Rightarrow> string list" where
  "split_comma [] = [[]]"
| "split_comma (c # cs) =
     (if c = CHR '','' then [] # split_comma cs
      else (case split_comma cs of [] \<Rightarrow> [[c]] | p # ps \<Rightarrow> (c # p) # ps))"

definition startswith :: "string \<Rightarrow> string \<Rightarrow> bool" where
  "startswith line p = (take (length p) line = p)"

text \<open>
  Python's built-in \<^verbatim>\<open>int(s)\<close> and \<^verbatim>\<open>float(s)\<close> are parameters \<open>pint\<close> and
  \<open>pfloat\<close> of the line readers: \<open>None\<close> is the \<^verbatim>\<open>ValueError\<close> they raise. (The
  noise that \<^verbatim>\<open>float\<close> reads is stored and never used.)
  \<open>decimal\<close> and \<open>decimal_float\<close> are plain readers of an optionally signed run of
  ASCII digits (with an optional fraction), used to run the line readers on concrete
  lines.
\<close>

definition digit_val :: "char \<Rightarrow> int option" where
  "digit_val c =
     (let v = (of_char c :: nat) in if 48 \<le> v \<and> v \<le> 57 then Some (int v - 48) else None)"

fun digits :: "string \<Rightarrow> int \<Rightarrow> int option" where
  "digits [] acc = Some acc"
| "digits (c # cs) acc =
     (case digit_val c of None \<Rightarrow> None | Some d \<Rightarrow> digits cs (10 * acc + d))"

definition decimal :: "string \<Rightarrow> int option" where
  "decimal s =
     (case s of
        [] \<Rightarrow> None
      | c # cs \<Rightarrow>
          if c = CHR ''-'' then (if cs = [] then None else map_option uminus (digits cs 0))
          else if c = CHR ''+'' then (if cs = [] then None else digits cs 0)
          else digits s 0)"

definition decimal_float :: "string \<Rightarrow> real option" where
  "decimal_float s =
     (let ip = takeWhile (\<lambda>c. c \<noteq> CHR ''.'') s;
          rest = dropWhile (\<lambda>c. c \<noteq> CHR ''.'') s
      in case rest of
           [] \<Rightarrow> map_option real_of_int (decimal ip)
         | dot # fp \<Rightarrow>
             (case decimal ip of
                None \<Rightarrow> None
              | Some a \<Rightarrow>
                  (case digits fp 0 of
                     None \<Rightarrow> None
                   | Some b \<Rightarrow>
                       (let f = real_of_int b / 10 ^ length fp
                        in Some (if take 1 ip = ''-'' then real_of_int a - f
                                 else real_of_int a + f)))))"

section \<open>The console client\<close>

text \<open>The value stored per unit: \<^verbatim>\<open>(bmask, loss, noise, seed)\<close>.\<close>

type_synonym payload = "int \<times> int \<times> real \<times> int"

text \<open>
  The locals of \<^verbatim>\<open>main\<close> that the receive loop updates. (\<^verbatim>\<open>batch_meta\<close> and
  \<^verbatim>\<open>last_rx_time\<close> are left out: nothing below reads them; printing is not modelled.)
\<close>

record main_state =
  best_score :: real
  best_bits :: "int list option"
  best_tick :: "int option"
  tick_buffer :: "payload tickbuf"

definition main_init :: main_state where
  "main_init = \<lparr>best_score = - (10 ^ 18), best_bits = None, best_tick = None, tick_buffer = []\<rparr>"

text \<open>The user settings after the prompts, and \<^verbatim>\<open>main\<close>'s clamping of them.\<close>

record settings =
  num_slaves :: int
  bits_per_slave :: int
  param_t :: real
  param_b :: int
  param_kp :: int
  param_m :: int
  batch_k :: int
  batch_stride :: int
  batch_burn :: int

definition main_clamp :: "settings \<Rightarrow> settings" where
  "main_clamp c = c
     \<lparr>param_t := clamp_float (param_t c) 0 1,
      param_b := clamp_int (param_b c) (- 127) 127,
      param_kp := clamp_int (param_kp c) 0 255,
      param_m := clamp_int (param_m c) 0 255,
      batch_k := clamp_int (batch_k c) 1 2000,
      batch_stride := clamp_int (batch_stride c) 1 1000,
      batch_burn := clamp_int (batch_burn c) 0 5000\<rparr>"

definition main_start :: "settings \<Rightarrow> command list" where
  "main_start c0 =
     (let c = main_clamp c0
      in [Hello, Param (format2 (param_t c)) (param_b c) (param_kp c) (param_m c),
          Get (batch_k c) (batch_stride c) (batch_burn c)])"

text \<open>\<^verbatim>\<open>build_edges(n_bits)\<close> with \<^verbatim>\<open>RING_WEIGHT = 1.0\<close> (both branches give the ring).\<close>

definition build_edges :: "int \<Rightarrow> edge list" where
  "build_edges n_bits = make_ring_edges n_bits 1"

text \<open>
  The loop \<^verbatim>\<open>for s in range(NUM_SLAVES): if s not in tick_buffer[tick]: break; ...;
  vec.append(bits_from_bmask(bm, width=BITS_PER_SLAVE))\<close>.
\<close>

fun collect_vec :: "(int, payload) dict \<Rightarrow> int \<Rightarrow> int list \<Rightarrow> int list list \<Rightarrow> int list list" where
  "collect_vec d width [] vec = vec"
| "collect_vec d width (s # ss) vec =
     (case map_of d s of
        None \<Rightarrow> vec
      | Some p \<Rightarrow> collect_vec d width ss (vec @ [bits_from_bmask (fst p) width]))"

text \<open>
  One parsed record in \<^verbatim>\<open>main\<close>: store it, and when the tick has at least
  \<^verbatim>\<open>NUM_SLAVES\<close> units, build the vector, score it when it is full, update the best
  result on a strictly greater score, and clean old ticks up. The result carries the
  sample that was scored, if one was; an exception ends \<^verbatim>\<open>main\<close>.
\<close>

definition main_ingest ::
  "int \<Rightarrow> int \<Rightarrow> edge list \<Rightarrow> main_state \<Rightarrow> int \<Rightarrow> int \<Rightarrow> payload
    \<Rightarrow> error + main_state \<times> sample option" where
  "main_ingest n width edges st tick sidx p =
     (let buf = store tick sidx p (tick_buffer st);
          st1 = st\<lparr>tick_buffer := buf\<rparr>
      in if n \<le> int (length (units_of buf tick)) then
           (let vec = collect_vec (units_of buf tick) width (py_range n) []
            in if int (length vec) = n then
                 (case concatenate vec of
                    Inl e \<Rightarrow> Inl e
                  | Inr bits \<Rightarrow>
                      (case maxcut_score bits edges of
                         Inl e \<Rightarrow> Inl e
                       | Inr score \<Rightarrow>
                           (let st2 = (if score > best_score st1
                                       then st1\<lparr>best_score := score, best_bits := Some bits,
                                                best_tick := Some tick\<rparr>
                                       else st1)
                            in Inr (st2\<lparr>tick_buffer := cleanup buf\<rparr>,
                                    Some \<lparr>s_tick = tick, s_score = score, s_bits = bits\<rparr>))))
               else Inr (st1\<lparr>tick_buffer := cleanup buf\<rparr>, None))
         else Inr (st1, None))"

text \<open>The six fields of a data line, read in the source's order inside its \<^verbatim>\<open>try\<close>.\<close>

definition main_parse ::
  "(string \<Rightarrow> int option) \<Rightarrow> (string \<Rightarrow> real option) \<Rightarrow> string list
    \<Rightarrow> (int \<times> int \<times> payload) option" where
  "main_parse pint pfloat parts =
     (case pint (parts ! 1) of None \<Rightarrow> None | Some tick \<Rightarrow>
      case pint (parts ! 2) of None \<Rightarrow> None | Some sidx \<Rightarrow>
      case pint (parts ! 3) of None \<Rightarrow> None | Some bmask \<Rightarrow>
      case pint (parts ! 4) of None \<Rightarrow> None | Some loss \<Rightarrow>
      case pfloat (parts ! 5) of None \<Rightarrow> None | Some noise \<Rightarrow>
      case pint (parts ! 6) of None \<Rightarrow> None | Some seed \<Rightarrow>
        Some (tick, sidx, bmask, loss, noise, seed))"

text \<open>
  One non-empty line in the receive loop. The flag says whether the loop goes on
  (\<^verbatim>\<open>@DONE\<close> breaks it).
\<close>

definition main_line ::
  "(string \<Rightarrow> int option) \<Rightarrow> (string \<Rightarrow> real option) \<Rightarrow> int \<Rightarrow> int \<Rightarrow> edge list
    \<Rightarrow> main_state \<Rightarrow> string \<Rightarrow> error + (main_state \<times> sample option) \<times> bool" where
  "main_line pint pfloat n width edges st line =
     (if startswith line ''@BATCH'' then Inr ((st, None), True)
      else if startswith line ''@DONE'' then Inr ((st, None), False)
      else if startswith line ''O,'' then
        (let parts = split_comma line
         in if length parts < 7 then Inr ((st, None), True)
            else (case main_parse pint pfloat parts of
                    None \<Rightarrow> Inr ((st, None), True)
                  | Some (tick, sidx, p) \<Rightarrow>
                      (case main_ingest n width edges st tick sidx p of
                         Inl e \<Rightarrow> Inl e
                       | Inr r \<Rightarrow> Inr (r, True))))
      else Inr ((st, None), True))"

text \<open>A run of parsed records through \<open>main_ingest\<close>, collecting the scored samples.\<close>

fun main_run ::
  "int \<Rightarrow> int \<Rightarrow> edge list \<Rightarrow> main_state \<Rightarrow> (int \<times> int \<times> payload) list
    \<Rightarrow> error + main_state \<times> sample list" where
  "main_run n width edges st [] = Inr (st, [])"
| "main_run n width edges st ((tick, sidx, p) # rs) =
     (case main_ingest n width edges st tick sidx p of
        Inl e \<Rightarrow> Inl e
      | Inr (st', out) \<Rightarrow>
          (case main_run n width edges st' rs of
             Inl e \<Rightarrow> Inl e
           | Inr (st'', outs) \<Rightarrow> Inr (st'', (case out of None \<Rightarrow> [] | Some x \<Rightarrow> [x]) @ outs)))"

section \<open>The dashboard client\<close>

definition NUM_SLAVES :: int where "NUM_SLAVES = 4"
definition BITS_PER_SLAVE :: int where "BITS_PER_SLAVE = 4"
definition N_BITS :: int where "N_BITS = NUM_SLAVES * BITS_PER_SLAVE"
definition EDGES :: "edge list" where
  "EDGES = map (\<lambda>i. (i, (i + 1) mod N_BITS, 1)) (py_range N_BITS)"
definition PARAM_B :: int where "PARAM_B = 5"
definition PARAM_KP :: int where "PARAM_KP = 60"
definition PARAM_M :: int where "PARAM_M = 1"
definition BATCH_STRIDE :: int where "BATCH_STRIDE = 1"
definition BATCH_BURN :: int where "BATCH_BURN = 50"

text \<open>The values of the input widgets that the callbacks read with \<^verbatim>\<open>dpg.get_value\<close>.\<close>

record gui =
  k_val :: int
  t_val :: real
  anneal_active :: bool
  t_start :: real
  t_end :: real

text \<open>
  The attributes of \<^verbatim>\<open>QuantumDashboard\<close>; \<open>self_written\<close> is what has been written to
  \<^verbatim>\<open>self.ser\<close>. The best bits are kept as the bit list that \<^verbatim>\<open>bitstr\<close> renders.
\<close>

record dashboard =
  self_running :: bool
  self_all_scores :: "real list"
  self_all_samples :: "sample list"
  self_best_history_x :: "int list"
  self_best_history_y :: "real list"
  self_best_score :: real
  self_best_bits :: "int list option"
  self_sample_count :: int
  self_tick_buffer :: "int tickbuf"
  self_last_sent_t :: real
  self_batch_k :: int
  self_written :: "command list"

definition dashboard_init :: dashboard where
  "dashboard_init =
     \<lparr>self_running = False, self_all_scores = [], self_all_samples = [],
      self_best_history_x = [], self_best_history_y = [], self_best_score = 0,
      self_best_bits = None, self_sample_count = 0, self_tick_buffer = [],
      self_last_sent_t = - 1, self_batch_k = 300, self_written = []\<rparr>"

text \<open>
  \<^verbatim>\<open>on_start\<close>, for a link that opens (\<open>link_ok\<close>) or fails to (the \<^verbatim>\<open>except\<close>
  branch only sets the status text).
\<close>

definition on_start :: "bool \<Rightarrow> gui \<Rightarrow> dashboard \<Rightarrow> dashboard" where
  "on_start link_ok g st =
     (if self_running st then st
      else if \<not> link_ok then st
      else
        (let k = k_val g;
             t0 = (if anneal_active g then t_start g else t_val g)
         in st\<lparr>self_last_sent_t := t0,
                self_written := self_written st @
                  [Hello, Param (format2 t0) PARAM_B PARAM_KP PARAM_M, Get k BATCH_STRIDE BATCH_BURN],
                self_running := True,
                self_batch_k := k\<rparr>))"

text \<open>
  The comprehension
  \<^verbatim>\<open>[bits_from_bmask(self.tick_buffer[tick][s]) for s in range(NUM_SLAVES) if s in self.tick_buffer[tick]]\<close>
  (the default width 4).
\<close>

definition full_vec :: "(int, int) dict \<Rightarrow> int list list" where
  "full_vec d =
     List.map_filter (\<lambda>s. map_option (\<lambda>bm. bits_from_bmask bm 4) (map_of d s)) (py_range NUM_SLAVES)"

text \<open>The part of \<^verbatim>\<open>update\<close> that runs once a sample has been scored.\<close>

definition record_sample :: "dashboard \<Rightarrow> int \<Rightarrow> int list \<Rightarrow> real \<Rightarrow> dashboard" where
  "record_sample st tick bits score =
     (let st1 = st\<lparr>self_all_scores := self_all_scores st @ [score],
                   self_sample_count := self_sample_count st + 1,
                   self_all_samples := self_all_samples st @
                     [\<lparr>s_tick = tick, s_score = score, s_bits = bits\<rparr>]\<rparr>;
          st2 = (if score > self_best_score st1
                 then st1\<lparr>self_best_score := score, self_best_bits := Some bits\<rparr>
                 else st1)
      in st2\<lparr>self_best_history_x := self_best_history_x st2 @ [tick],
              self_best_history_y := self_best_history_y st2 @ [self_best_score st2]\<rparr>)"

text \<open>
  The annealing logic at the end of the \<^verbatim>\<open>try\<close> block, in double arithmetic:
  \<^verbatim>\<open>0.01\<close> is the double nearest to 1/100, the command text has the temperature with
  two decimals, and \<^verbatim>\<open>self.last_sent_t\<close> keeps the temperature as computed.
\<close>

definition anneal :: "gui \<Rightarrow> dashboard \<Rightarrow> dashboard" where
  "anneal g st =
     (if anneal_active g then
        (let progress = (if self_batch_k st > 0
                         then fdiv (of_int (self_sample_count st)) (of_int (self_batch_k st))
                         else 0);
             current_t = fadd (t_start g) (fmul (fsub (t_end g) (t_start g)) progress)
         in if \<bar>fsub current_t (self_last_sent_t st)\<bar> \<ge> fround (1 / 100)
            then st\<lparr>self_written := self_written st @
                      [Param (format2 current_t) PARAM_B PARAM_KP PARAM_M],
                    self_last_sent_t := current_t\<rparr>
            else st)
      else st)"

text \<open>
  The aggregation inside the \<^verbatim>\<open>try\<close> block for one parsed record. An exception
  (\<open>Inl\<close>) carries the state reached when it was raised, which \<^verbatim>\<open>except: pass\<close> keeps.
\<close>

definition update_aggregate :: "dashboard \<Rightarrow> int \<Rightarrow> int \<Rightarrow> int \<Rightarrow> dashboard + dashboard" where
  "update_aggregate st tick sidx bmask =
     (let buf = store tick sidx bmask (self_tick_buffer st);
          st1 = st\<lparr>self_tick_buffer := buf\<rparr>
      in if NUM_SLAVES \<le> int (length (units_of buf tick)) then
           (let vec = full_vec (units_of buf tick)
            in if int (length vec) = NUM_SLAVES then
                 (case concatenate vec of
                    Inl e \<Rightarrow> Inl st1
                  | Inr bits \<Rightarrow>
                      (case maxcut_score bits EDGES of
                         Inl e \<Rightarrow> Inl st1
                       | Inr score \<Rightarrow>
                           (let st2 = record_sample st1 tick bits score
                            in Inr (st2\<lparr>self_tick_buffer := cleanup buf\<rparr>))))
               else Inr (st1\<lparr>self_tick_buffer := cleanup buf\<rparr>))
         else Inr st1)"

definition update_ingest :: "gui \<Rightarrow> dashboard \<Rightarrow> int \<Rightarrow> int \<Rightarrow> int \<Rightarrow> dashboard" where
  "update_ingest g st tick sidx bmask =
     (case update_aggregate st tick sidx bmask of
        Inl st' \<Rightarrow> st'
      | Inr st' \<Rightarrow> anneal g st')"

text \<open>The three fields the dashboard reads from a data line.\<close>

definition update_parse :: "(string \<Rightarrow> int option) \<Rightarrow> string list \<Rightarrow> (int \<times> int \<times> int) option" where
  "update_parse pint parts =
     (case pint (parts ! 1) of None \<Rightarrow> None | Some tick \<Rightarrow>
      case pint (parts ! 2) of None \<Rightarrow> None | Some sidx \<Rightarrow>
      case pint (parts ! 3) of None \<Rightarrow> None | Some bmask \<Rightarrow>
        Some (tick, sidx, bmask))"

text \<open>One line read in \<^verbatim>\<open>update\<close>; the flag says whether the reading loop goes on.\<close>

definition update_line ::
  "(string \<Rightarrow> int option) \<Rightarrow> gui \<Rightarrow> dashboard \<Rightarrow> string \<Rightarrow> dashboard \<times> bool" where
  "update_line pint g st line =
     (if startswith line ''@DONE'' then (st\<lparr>self_running := False\<rparr>, False)
      else if startswith line ''O,'' then
        (let parts = split_comma line
         in if 7 \<le> length parts then
              (case update_parse pint parts of
                 None \<Rightarrow> (st, True)
               | Some (tick, sidx, bmask) \<Rightarrow> (update_ingest g st tick sidx bmask, True))
            else (st, True))
      else (st, True))"

text \<open>A run of parsed records through \<open>update_ingest\<close>.\<close>

fun update_run :: "gui \<Rightarrow> dashboard \<Rightarrow> (int \<times> int \<times> int) list \<Rightarrow> dashboard" where
  "update_run g st [] = st"
| "update_run g st ((tick, sidx, bmask) # rs) = update_run g (update_ingest g st tick sidx bmask) rs"

section \<open>Notions used to state the properties\<close>

text \<open>The dict \<open>d\<close> of a tick has every unit index \<open>0..n-1\<close>.\<close>

definition has_all :: "(int, 'p) dict \<Rightarrow> int \<Rightarrow> bool" where
  "has_all d n = list_all (\<lambda>s. map_of d s \<noteq> None) (py_range n)"

text \<open>The decoded bits of the units \<open>0..n-1\<close>, concatenated in ascending index order;
  \<open>bm s\<close> is the bit mask of unit \<open>s\<close>.\<close>

definition ordered_bits :: "(int \<Rightarrow> int) \<Rightarrow> int \<Rightarrow> int \<Rightarrow> int list" where
  "ordered_bits bm n width = concat (map (\<lambda>s. bits_from_bmask (bm s) width) (py_range n))"

text \<open>
  The best result over a list of scored samples, from a starting best
  \<open>(score, bits, tick)\<close>: a sample replaces it only with a strictly greater score.
\<close>

fun best_over ::
  "real \<times> int list option \<times> int option \<Rightarrow> sample list \<Rightarrow> real \<times> int list option \<times> int option" where
  "best_over b [] = b"
| "best_over (sc, bits, tk) (x # xs) =
     best_over (if sc < s_score x then (s_score x, Some (s_bits x), Some (s_tick x))
                else (sc, bits, tk)) xs"

text \<open>The records of one tick, for a list of \<open>(unit index, value)\<close> pairs.\<close>

definition records_of :: "int \<Rightarrow> (int \<times> 'p) list \<Rightarrow> (int \<times> int \<times> 'p) list" where
  "records_of tick us = map (\<lambda>(s, p). (tick, s, p)) us"

section \<open>Properties of double-precision arithmetic\<close>

lemma bit_length_bounds:
  "0 < n \<Longrightarrow> 2 ^ (bit_length n - 1) \<le> n \<and> n < 2 ^ bit_length n"
proof (induction n rule: bit_length.induct)
  case (1 n)
  show ?case
  proof (cases "n = 1")
    case True
    have "bit_length 1 = 1"
      by (simp add: bit_length.simps [of 1] bit_length.simps [of 0])
    with True show ?thesis by simp
  next
    case False
    with "1.prems" have h: "0 < n div 2" by simp
    have e: "bit_length n = Suc (bit_length (n div 2))"
      using "1.prems" by (simp add: bit_length.simps [of n])
    from "1.IH" h "1.prems" have ih: "2 ^ (bit_length (n div 2) - 1) \<le> n div 2"
      "n div 2 < 2 ^ bit_length (n div 2)"
      by simp_all
    have pos: "0 < bit_length (n div 2)"
      using h by (simp add: bit_length.simps [of "n div 2"])
    then have "(2 :: int) ^ bit_length (n div 2) = 2 * 2 ^ (bit_length (n div 2) - 1)"
      by (cases "bit_length (n div 2)") simp_all
    with ih show ?thesis
      unfolding e by simp linarith
  qed
qed

lemma round_half_even_of_int [simp]: "round_half_even (of_int m) = m"
  by (simp add: round_half_even_def)

lemma fround_of_int:
  assumes "\<bar>z\<bar> \<le> 2 ^ 53"
  shows "fround (of_int z) = of_int z"
proof (cases "z = 0")
  case True
  then show ?thesis by (simp add: fround_def)
next
  case False
  let ?b = "bit_length \<bar>z\<bar>"
  from False have pos: "0 < \<bar>z\<bar>" by simp
  note bb = bit_length_bounds [OF pos]
  have one: "1 \<le> \<bar>real_of_int z\<bar>"
    using False by (simp flip: of_int_abs)
  have fl: "\<lfloor>\<bar>real_of_int z\<bar>\<rfloor> = \<bar>z\<bar>"
    by (simp flip: of_int_abs)
  have ex: "binary_exponent (of_int z) = int ?b - 1"
    using one by (simp add: binary_exponent_def Let_def fl)
  have bpos: "0 < ?b"
    using pos by (simp add: bit_length.simps [of "\<bar>z\<bar>"])
  have "(2 :: int) ^ (?b - 1) \<le> 2 ^ 53"
    using bb assms by linarith
  then have le: "?b - 1 \<le> 53"
  proof -
    assume a: "(2 :: int) ^ (?b - 1) \<le> 2 ^ 53"
    have "(1 :: int) < 2" by simp
    from power_increasing_iff [OF this, of "?b - 1" 53] a show ?thesis by blast
  qed
  show ?thesis
  proof (cases "?b - 1 = 53")
    case True
    with bb assms have az: "\<bar>z\<bar> = 2 ^ 53" by simp
    then obtain m where m: "z = 2 * m"
      by (cases "0 \<le> z") (auto simp: abs_if intro: that [of "2 ^ 52"] that [of "- (2 ^ 52)"])
    from True bpos have b54: "?b = 54" by linarith
    have u: "pow2 (max (binary_exponent (of_int z) - 52) (- 1074)) = 2"
      by (simp add: ex pow2_def b54)
    have "real_of_int z / 2 = of_int m"
      by (simp add: m)
    then have r: "round_half_even (real_of_int z / 2) = m"
      by (simp only: round_half_even_of_int)
    have twice: "real_of_int m * 2 = real_of_int z"
      by (simp add: m)
    show ?thesis
      using False by (simp add: fround_def Let_def u r twice)
  next
    case ne: False
    with le have small: "?b - 1 \<le> 52" by simp
    define j where "j = 53 - ?b"
    have mx: "max (int ?b - 1 - 52) (- 1074) = int ?b - 1 - 52"
      by simp
    have u: "pow2 (max (binary_exponent (of_int z) - 52) (- 1074)) = 1 / 2 ^ j"
    proof (cases "?b = 53")
      case True
      then show ?thesis by (simp add: ex pow2_def j_def)
    next
      case b: False
      with small bpos have "int ?b - 1 - 52 < 0" by simp
      moreover have "nat (- (int ?b - 1 - 52)) = j"
        using small bpos by (simp add: j_def)
      ultimately show ?thesis
        unfolding ex mx by (simp add: pow2_def)
    qed
    have "real_of_int z / (1 / 2 ^ j) = of_int (z * 2 ^ j)"
      by simp
    then have "round_half_even (real_of_int z / (1 / 2 ^ j)) = z * 2 ^ j"
      by (simp only: round_half_even_of_int)
    then show ?thesis
      using False by (simp add: fround_def Let_def u)
  qed
qed

lemma round_half_even_bounds:
  "real_of_int (round_half_even q) \<le> q + 1 / 2 \<and> q - 1 / 2 \<le> real_of_int (round_half_even q)"
  unfolding round_half_even_def Let_def by (auto; linarith)

lemma format2_bounds:
  assumes "0 \<le> x" and "x \<le> 1"
  shows "0 \<le> format2 x \<and> format2 x \<le> 1"
proof -
  let ?r = "round_half_even (x * 100)"
  from round_half_even_bounds [of "x * 100"] assms
  have "- 1 / 2 \<le> real_of_int ?r" "real_of_int ?r \<le> 100 + 1 / 2"
    by linarith+
  then have "- 1 < ?r" "?r < 101"
    by linarith+
  then have "0 \<le> ?r" "?r \<le> 100" by simp_all
  then have "0 \<le> real_of_int ?r" "real_of_int ?r \<le> 100"
    by simp_all
  then show ?thesis by (simp add: format2_def)
qed

text \<open>Adding whole numbers whose absolute values stay within \<open>2^53\<close> is exact.\<close>

lemma foldl_fadd_whole:
  assumes "list_all (\<lambda>w. w = of_int \<lfloor>w\<rfloor>) ws"
    and "acc = of_int \<lfloor>acc\<rfloor>"
    and "\<bar>acc\<bar> + sum_list (map abs ws) \<le> 2 ^ 53"
  shows "foldl fadd acc ws = acc + sum_list ws"
  using assms
proof (induction ws arbitrary: acc)
  case Nil
  show ?case by simp
next
  case (Cons w ws)
  from Cons.prems(1) have w: "w = of_int \<lfloor>w\<rfloor>" and rest: "list_all (\<lambda>w. w = of_int \<lfloor>w\<rfloor>) ws"
    by simp_all
  have nn: "0 \<le> sum_list (map abs ws)"
    by (rule sum_list_nonneg) auto
  from Cons.prems(2) obtain a where a: "acc = of_int a" ..
  from w obtain k where k: "w = of_int k" ..
  have "\<bar>acc + w\<bar> \<le> 2 ^ 53"
    using Cons.prems(3) nn by simp
  then have "real_of_int \<bar>a + k\<bar> \<le> 2 ^ 53"
    by (simp add: a k)
  then have "\<bar>a + k\<bar> \<le> 2 ^ 53"
    by simp
  then have "fround (of_int (a + k)) = of_int (a + k)"
    by (rule fround_of_int)
  then have step: "fadd acc w = acc + w"
    by (simp add: fadd_def a k)
  have whole: "acc + w = of_int \<lfloor>acc + w\<rfloor>"
    by (simp add: a k)
  have "\<bar>acc + w\<bar> + sum_list (map abs ws) \<le> 2 ^ 53"
    using Cons.prems(3) by simp
  from Cons.IH [OF rest whole this] show ?case
    by (simp add: step)
qed

section \<open>Properties of the scoring engine\<close>

lemma getitem_in_range:
  "0 \<le> i \<Longrightarrow> i < int (length xs) \<Longrightarrow> getitem xs i = Inr (xs ! nat i)"
  by (simp add: getitem_def)

lemma maxcut_loop_in_range:
  "in_range bits edges \<Longrightarrow> maxcut_loop bits edges acc = Inr (foldl fadd acc (cut_list bits edges))"
proof (induction edges arbitrary: acc)
  case Nil
  show ?case by (simp add: cut_list_def)
next
  case (Cons e es)
  obtain i j w where e: "e = (i, j, w)" by (cases e)
  from Cons.prems have r: "0 \<le> i" "i < int (length bits)" "0 \<le> j" "j < int (length bits)"
    and rest: "in_range bits es"
    by (simp_all add: in_range_def e)
  have tail: "\<And>a. maxcut_loop bits es a = Inr (foldl fadd a (cut_list bits es))"
    using Cons.IH [OF rest] .
  show ?case
    by (simp add: e getitem_in_range r tail cut_list_def)
qed

lemma maxcut_score_in_range:
  "in_range bits edges \<Longrightarrow> maxcut_score bits edges = Inr (cut_weight bits edges)"
  by (simp add: maxcut_score_def cut_weight_def maxcut_loop_in_range)

lemma cut_sum_as_mset:
  "cut_sum bits es =
     sum_mset (image_mset (\<lambda>(i, j, w). w)
       (filter_mset (\<lambda>(i, j, w). bits ! nat i \<noteq> bits ! nat j) (mset es)))"
  unfolding cut_sum_def cut_list_def
  by (simp only: sum_mset_sum_list [symmetric] mset_map mset_filter)

lemma cut_sum_mset:
  "mset es = mset es' \<Longrightarrow> cut_sum bits es = cut_sum bits es'"
  by (simp only: cut_sum_as_mset)

lemma in_range_mset:
  assumes "mset es = mset es'"
  shows "in_range bits es = in_range bits es'"
proof -
  have "set es = set es'"
    using assms by (rule mset_eq_setD)
  then show ?thesis
    by (simp add: in_range_def list_all_iff)
qed

lemma whole_weights_mset:
  assumes "mset es = mset es'"
  shows "whole_weights es = whole_weights es'"
proof -
  have "set es = set es'"
    using assms by (rule mset_eq_setD)
  moreover have "sum_list (map (\<lambda>(i, j, w). \<bar>w\<bar>) es) = sum_list (map (\<lambda>(i, j, w). \<bar>w\<bar>) es')"
    using assms by (simp only: sum_mset_sum_list [symmetric] mset_map)
  ultimately show ?thesis
    by (simp add: whole_weights_def list_all_iff)
qed

lemma cut_list_whole:
  assumes "whole_weights edges"
  shows "list_all (\<lambda>w. w = of_int \<lfloor>w\<rfloor>) (cut_list bits edges)"
    and "sum_list (map abs (cut_list bits edges)) \<le> 2 ^ 53"
proof -
  from assms show "list_all (\<lambda>w. w = of_int \<lfloor>w\<rfloor>) (cut_list bits edges)"
    by (auto simp: whole_weights_def cut_list_def list_all_iff)
  have "sum_list (map abs (cut_list bits es)) \<le> sum_list (map (\<lambda>(i, j, w). \<bar>w\<bar>) es)" for es
    by (induction es) (auto simp: cut_list_def)
  with assms show "sum_list (map abs (cut_list bits edges)) \<le> 2 ^ 53"
    unfolding whole_weights_def by (meson order_trans)
qed

lemma cut_weight_whole: "whole_weights edges \<Longrightarrow> cut_weight bits edges = cut_sum bits edges"
  using foldl_fadd_whole [of "cut_list bits edges" 0] cut_list_whole [of edges bits]
  by (simp add: cut_weight_def cut_sum_def)

lemma cut_weight_all_equal:
  assumes "\<forall>k < length bits. bits ! k = b" and "in_range bits edges"
  shows "cut_weight bits edges = 0"
proof -
  have "filter (\<lambda>(i, j, w). bits ! nat i \<noteq> bits ! nat j) edges = []"
    using assms by (auto simp: filter_empty_conv in_range_def list_all_iff)
  then show ?thesis by (simp add: cut_weight_def cut_list_def)
qed

text \<open>
  C8. For a non-negative mask and a non-negative width, \<open>bits_from_bmask\<close> returns
  exactly \<open>width\<close> bits, and bit \<open>k\<close> of the result is \<open>(mask >> k) & 1\<close>, the
  \<open>k\<close>-th binary digit of the mask (little-endian). The result is a function of the two
  arguments alone.
\<close>

theorem bits_from_bmask_decodes:
  assumes "0 \<le> bmask" and "0 \<le> width"
  shows "int (length (bits_from_bmask bmask width)) = width
    \<and> (\<forall>k < nat width. bits_from_bmask bmask width ! k = drop_bit k bmask AND 1
          \<and> bits_from_bmask bmask width ! k = bmask div 2 ^ k mod 2)"
  using assms by (simp add: bits_from_bmask_def and_one_eq drop_bit_eq_div)

theorem bits_from_bmask_decodes_witness:
  "(0::int) \<le> 5 \<and> (0::int) \<le> 4 \<and> bits_from_bmask 5 4 = [1, 0, 1, 0]
    \<and> int (length (bits_from_bmask 5 4)) = 4
    \<and> bits_from_bmask 5 4 ! 2 = 5 div 2 ^ 2 mod 2"
proof -
  have v: "bits_from_bmask 5 4 = [1, 0, 1, 0]"
    by code_simp
  have "int (length (bits_from_bmask 5 4)) = 4
    \<and> (\<forall>k < nat 4. bits_from_bmask 5 4 ! k = drop_bit k 5 AND 1
          \<and> bits_from_bmask 5 4 ! k = 5 div 2 ^ k mod 2)"
    by (rule bits_from_bmask_decodes) simp_all
  then have "int (length (bits_from_bmask 5 4)) = 4"
    and "bits_from_bmask 5 4 ! 2 = 5 div 2 ^ 2 mod 2"
    by simp_all
  with v show ?thesis by simp
qed

text \<open>
  C7 (as amended). For bits and an edge list whose endpoint indices all lie in
  \<open>[0, len(bits))\<close>, \<open>maxcut_score\<close> returns the weights of exactly the edges whose endpoint
  bits differ, added in list order in double arithmetic (as long as no running sum
  overflows); it returns 0 for the empty edge list and 0 when all bits are equal. When
  the weights are whole numbers whose absolute values add up to at most \<open>2^53\<close> (the unit
  weights of the ring are), the additions are exact: the score is the exact sum of those
  weights, and it is the same for every reordering of the edge list.
\<close>

theorem maxcut_score_is_cut_weight:
  assumes "in_range bits edges"
  shows "(finite_sums (cut_list bits edges) \<longrightarrow>
            maxcut_score bits edges = Inr (cut_weight bits edges))
    \<and> maxcut_score bits [] = Inr 0
    \<and> ((\<forall>k < length bits. bits ! k = b) \<longrightarrow> maxcut_score bits edges = Inr 0)
    \<and> (whole_weights edges \<longrightarrow>
          maxcut_score bits edges = Inr (cut_sum bits edges)
          \<and> (\<forall>edges'. mset edges' = mset edges \<longrightarrow>
                maxcut_score bits edges' = maxcut_score bits edges))"
proof -
  have a: "maxcut_score bits edges = Inr (cut_weight bits edges)"
    using assms by (rule maxcut_score_in_range)
  have n: "maxcut_score bits [] = Inr 0"
    by (simp add: maxcut_score_def)
  have z: "maxcut_score bits edges = Inr 0" if "\<forall>k < length bits. bits ! k = b"
    using a cut_weight_all_equal [OF that assms] by simp
  have s: "maxcut_score bits edges = Inr (cut_sum bits edges)" if "whole_weights edges"
    using a cut_weight_whole [OF that] by simp
  have p: "maxcut_score bits edges' = maxcut_score bits edges"
    if w: "whole_weights edges" and p: "mset edges' = mset edges" for edges'
  proof -
    have r': "in_range bits edges'"
      using assms in_range_mset [OF p] by simp
    have w': "whole_weights edges'"
      using w whole_weights_mset [OF p] by simp
    have "maxcut_score bits edges' = Inr (cut_sum bits edges')"
      using maxcut_score_in_range [OF r'] cut_weight_whole [OF w'] by simp
    with s [OF w] cut_sum_mset [OF p] show ?thesis by simp
  qed
  from a n z s p show ?thesis by blast
qed

theorem maxcut_score_is_cut_weight_witness:
  "in_range [1, 0, 0] [(0, 1, 2), (1, 2, 5), (2, 0, 3)]
    \<and> whole_weights [(0, 1, 2), (1, 2, 5), (2, 0, 3)]
    \<and> mset [(2, 0, 3), (1, 2, 5), (0, 1, 2 :: real)] = mset [(0, 1, 2), (1, 2, 5), (2 :: int, 0 :: int, 3)]
    \<and> finite_sums (cut_list [1, 0, 0] [(0, 1, 2), (1, 2, 5), (2, 0, 3)])
    \<and> maxcut_score [1, 0, 0] [(0, 1, 2), (1, 2, 5), (2, 0, 3)]
        = Inr (cut_weight [1, 0, 0] [(0, 1, 2), (1, 2, 5), (2, 0, 3)])
    \<and> cut_sum [1, 0, 0] [(0, 1, 2), (1, 2, 5), (2, 0, 3)] = 5
    \<and> maxcut_score [1, 0, 0] [(0, 1, 2), (1, 2, 5), (2, 0, 3)] = Inr 5
    \<and> maxcut_score [1, 0, 0] [(2, 0, 3), (1, 2, 5), (0, 1, 2)] = Inr 5
    \<and> in_range [1, 1, 1] [(0, 1, 2), (1, 2, 5), (2, 0, 3)]
    \<and> maxcut_score [1, 1, 1] [(0, 1, 2), (1, 2, 5), (2, 0, 3)] = Inr 0"
proof -
  let ?es = "[(0, 1, 2), (1, 2, 5), (2, 0, 3)] :: edge list"
  let ?es' = "[(2, 0, 3), (1, 2, 5), (0, 1, 2)] :: edge list"
  have r: "in_range [1, 0, 0] ?es" and r1: "in_range [1, 1, 1] ?es"
    by (simp_all add: in_range_def)
  have w: "whole_weights ?es"
    by (simp add: whole_weights_def)
  have c: "cut_sum [1, 0, 0] ?es = 5"
    by (simp add: cut_sum_def cut_list_def)
  have p: "mset ?es' = mset ?es"
    by (simp add: add.commute)
  have e: "\<forall>k < length [1, 1, 1 :: int]. [1, 1, 1 :: int] ! k = 1"
    by (simp add: nth_Cons')
  have l: "cut_list [1, 0, 0] ?es = [2, 3]"
    by (simp add: cut_list_def)
  have v: "fadd 0 2 = 2" "fadd 2 3 = 5"
    by code_simp+
  have f: "finite_sums (cut_list [1, 0, 0] ?es)"
    unfolding l
    by (simp add: finite_sums_def finite_double_def upt_rec v take_Suc_conv_app_nth)
  have s: "maxcut_score [1, 0, 0] ?es = Inr (cut_sum [1, 0, 0] ?es)"
    and q: "maxcut_score [1, 0, 0] ?es' = maxcut_score [1, 0, 0] ?es"
    and d: "maxcut_score [1, 0, 0] ?es = Inr (cut_weight [1, 0, 0] ?es)"
    using maxcut_score_is_cut_weight [OF r, of 0] w p f by blast+
  have t: "maxcut_score [1, 1, 1] ?es = Inr 0"
    using maxcut_score_is_cut_weight [OF r1, of 1] e by blast
  from r w p c s q r1 t f d show ?thesis by simp
qed

text \<open>
  The claim as it stands fails for general weights: on the bits 1,0,1,0 the three edges
  with the weights \<open>1e16\<close>, \<open>1.0\<close>, \<open>-1e16\<close> all have differing endpoints and their sum is
  1, yet the loop returns 0.0 for them in this order and 1.0 in another.
\<close>

theorem maxcut_score_depends_on_order:
  "in_range [1, 0, 1, 0] [(0, 1, 10 ^ 16), (1, 2, 1), (2, 3, - (10 ^ 16))]
    \<and> mset [(0, 1, 10 ^ 16), (2, 3, - (10 ^ 16)), (1, 2, 1 :: real)]
        = mset [(0, 1, 10 ^ 16), (1, 2, 1), (2 :: int, 3 :: int, - (10 ^ 16))]
    \<and> cut_sum [1, 0, 1, 0] [(0, 1, 10 ^ 16), (1, 2, 1), (2, 3, - (10 ^ 16))] = 1
    \<and> maxcut_score [1, 0, 1, 0] [(0, 1, 10 ^ 16), (1, 2, 1), (2, 3, - (10 ^ 16))] = Inr 0
    \<and> maxcut_score [1, 0, 1, 0] [(0, 1, 10 ^ 16), (2, 3, - (10 ^ 16)), (1, 2, 1)] = Inr 1"
proof -
  have "in_range [1, 0, 1, 0] [(0, 1, 10 ^ 16), (1, 2, 1), (2, 3, - (10 ^ 16))]"
    by (simp add: in_range_def)
  moreover have "mset [(0, 1, 10 ^ 16), (2, 3, - (10 ^ 16)), (1, 2, 1 :: real)]
        = mset [(0, 1, 10 ^ 16), (1, 2, 1), (2 :: int, 3 :: int, - (10 ^ 16))]"
    by (simp add: add.commute)
  moreover have "cut_sum [1, 0, 1, 0] [(0, 1, 10 ^ 16), (1, 2, 1), (2, 3, - (10 ^ 16))] = 1"
    by (simp add: cut_sum_def cut_list_def)
  moreover have "maxcut_score [1, 0, 1, 0] [(0, 1, 10 ^ 16), (1, 2, 1), (2, 3, - (10 ^ 16))] = Inr 0"
    by code_simp
  moreover have "maxcut_score [1, 0, 1, 0] [(0, 1, 10 ^ 16), (2, 3, - (10 ^ 16)), (1, 2, 1)] = Inr 1"
    by code_simp
  ultimately show ?thesis by (intro conjI)
qed

lemma getitem_flip:
  "getitem (flip bits) i = (case getitem bits i of Inl e \<Rightarrow> Inl e | Inr b \<Rightarrow> Inr (1 - b))"
proof -
  have "nat (int (length bits) + i) < length bits" if "i < 0" "- int (length bits) \<le> i"
    using that by linarith
  moreover have "nat i < length bits" if "0 \<le> i" "i < int (length bits)"
    using that by linarith
  ultimately show ?thesis
    by (simp add: getitem_def flip_def)
qed

lemma maxcut_loop_flip: "maxcut_loop (flip bits) edges acc = maxcut_loop bits edges acc"
proof (induction edges arbitrary: acc)
  case Nil
  show ?case by simp
next
  case (Cons e es)
  obtain i j w where e: "e = (i, j, w)" by (cases e)
  show ?case
    by (simp add: e getitem_flip Cons.IH split: sum.splits)
qed

text \<open>
  C10. Complement symmetry: flipping every bit (0 to 1, 1 to 0) leaves
  \<open>maxcut_score\<close> unchanged, for every bit sequence and every edge list (also where an
  index is out of range: both calls then raise the same error).
\<close>

theorem maxcut_score_complement:
  "maxcut_score (flip bits) edges = maxcut_score bits edges"
  by (simp add: maxcut_score_def maxcut_loop_flip)

section \<open>Properties of the tick aggregator\<close>

lemma set_py_range: "set (py_range n) = {s. 0 \<le> s \<and> s < n}"
proof -
  have "set (py_range n) = int ` {0..<nat n}"
    by (simp add: py_range_def)
  also have "\<dots> = {s. 0 \<le> s \<and> s < n}"
  proof (rule set_eqI)
    fix s :: int
    show "s \<in> int ` {0..<nat n} \<longleftrightarrow> s \<in> {s. 0 \<le> s \<and> s < n}"
    proof
      assume "s \<in> int ` {0..<nat n}"
      then obtain k where "s = int k" "k < nat n" by auto
      then show "s \<in> {s. 0 \<le> s \<and> s < n}" by simp
    next
      assume "s \<in> {s. 0 \<le> s \<and> s < n}"
      then have "s = int (nat s)" "nat s < nat n" by simp_all
      then show "s \<in> int ` {0..<nat n}"
        by (metis atLeastLessThan_iff image_eqI le0)
    qed
  qed
  finally show ?thesis .
qed

lemma length_py_range: "length (py_range n) = nat n"
  by (simp add: py_range_def)

lemma units_of_store_same: "units_of (store t s p buf) t = AList.update s p (units_of buf t)"
  by (simp add: units_of_def store_def update_conv' split: option.splits)

lemma map_of_store_other: "t' \<noteq> t \<Longrightarrow> map_of (store t s p buf) t' = map_of buf t'"
  by (simp add: store_def update_conv' split: option.splits)

lemma units_of_store_other: "t' \<noteq> t \<Longrightarrow> units_of (store t s p buf) t' = units_of buf t'"
  by (simp add: units_of_def map_of_store_other)

lemma collect_vec_all:
  "list_all (\<lambda>s. map_of d s \<noteq> None) ss \<Longrightarrow>
     collect_vec d w ss vec = vec @ map (\<lambda>s. bits_from_bmask (fst (the (map_of d s))) w) ss"
  by (induction ss arbitrary: vec) auto

lemma collect_vec_full:
  "length (collect_vec d w ss vec) = length vec + length ss \<Longrightarrow>
     list_all (\<lambda>s. map_of d s \<noteq> None) ss"
proof (induction ss arbitrary: vec)
  case Nil
  show ?case by simp
next
  case (Cons s ss)
  show ?case
  proof (cases "map_of d s")
    case None
    with Cons.prems show ?thesis by simp
  next
    case (Some p)
    with Cons.prems
    have "length (collect_vec d w ss (vec @ [bits_from_bmask (fst p) w])) =
      length (vec @ [bits_from_bmask (fst p) w]) + length ss"
      by simp
    from Cons.IH [OF this] Some show ?thesis by (cases p) simp
  qed
qed

lemma main_ingest_SomeD:
  assumes "main_ingest n width edges st tick sidx p = Inr (st', Some smp)"
  shows "has_all (units_of (store tick sidx p (tick_buffer st)) tick) n"
    and "s_tick smp = tick"
    and "s_bits smp =
      ordered_bits (\<lambda>s. fst (the (map_of (units_of (store tick sidx p (tick_buffer st)) tick) s))) n width"
    and "maxcut_score (s_bits smp) edges = Inr (s_score smp)"
proof -
  let ?d = "units_of (store tick sidx p (tick_buffer st)) tick"
  let ?vec = "collect_vec ?d width (py_range n) []"
  from assms have len: "int (length ?vec) = n"
    by (simp add: main_ingest_def Let_def split: if_splits sum.splits)
  then have "length ?vec = length ([] :: int list list) + length (py_range n)"
    by (simp add: length_py_range)
  then have all: "list_all (\<lambda>s. map_of ?d s \<noteq> None) (py_range n)"
    by (rule collect_vec_full)
  then show "has_all ?d n"
    by (simp add: has_all_def)
  from all have vec: "?vec = map (\<lambda>s. bits_from_bmask (fst (the (map_of ?d s))) width) (py_range n)"
    by (simp add: collect_vec_all)
  from assms len obtain bits score where
    c: "concatenate ?vec = Inr bits" and m: "maxcut_score bits edges = Inr score"
    and smp: "smp = \<lparr>s_tick = tick, s_score = score, s_bits = bits\<rparr>"
    by (auto simp: main_ingest_def Let_def split: if_splits sum.splits)
  from smp show "s_tick smp = tick" by simp
  from c have "bits = concat ?vec"
    by (simp add: concatenate_def split: if_splits)
  with vec smp show "s_bits smp = ordered_bits (\<lambda>s. fst (the (map_of ?d s))) n width"
    by (simp add: ordered_bits_def)
  from m smp show "maxcut_score (s_bits smp) edges = Inr (s_score smp)" by simp
qed

lemma py_range_NUM_SLAVES: "py_range NUM_SLAVES = [0, 1, 2, 3]"
  by code_simp

lemma py_range_4: "py_range 4 = [0, 1, 2, 3]"
  by code_simp

lemma EDGES_eq:
  "EDGES = [(0, 1, 1), (1, 2, 1), (2, 3, 1), (3, 4, 1), (4, 5, 1), (5, 6, 1),
    (6, 7, 1), (7, 8, 1), (8, 9, 1), (9, 10, 1), (10, 11, 1), (11, 12, 1),
    (12, 13, 1), (13, 14, 1), (14, 15, 1), (15, 0, 1)]"
  by code_simp

lemma in_range_EDGES: "length bits = 16 \<Longrightarrow> in_range bits EDGES"
  by (simp add: in_range_def EDGES_eq)

lemma has_all_length:
  assumes "has_all d n"
  shows "n \<le> int (length d)"
proof -
  have "set (py_range n) \<subseteq> fst ` set d"
  proof
    fix s assume "s \<in> set (py_range n)"
    with assms have "map_of d s \<noteq> None"
      by (simp add: has_all_def list_all_iff)
    then show "s \<in> fst ` set d"
      by (simp add: map_of_eq_None_iff)
  qed
  then have "card (set (py_range n)) \<le> card (fst ` set d)"
    by (simp add: card_mono)
  moreover have "card (set (py_range n)) = nat n"
    by (simp add: py_range_def card_image distinct_card)
  moreover have "card (fst ` set d) \<le> length d"
    by (metis card_image_le card_length le_trans List.finite_set)
  ultimately show ?thesis by linarith
qed

lemma full_vec_complete:
  "int (length (full_vec d)) = NUM_SLAVES \<longleftrightarrow> has_all d NUM_SLAVES"
  by (auto simp: full_vec_def has_all_def py_range_4 map_filter_simps NUM_SLAVES_def
      split: option.splits)

lemma full_vec_has_all:
  "has_all d NUM_SLAVES \<Longrightarrow>
     full_vec d = map (\<lambda>s. bits_from_bmask (the (map_of d s)) 4) (py_range NUM_SLAVES)"
  by (auto simp: full_vec_def has_all_def py_range_4 NUM_SLAVES_def map_filter_simps)

lemma length_bits_from_bmask: "length (bits_from_bmask bm w) = nat w"
  by (simp add: bits_from_bmask_def)

lemma length_ordered_bits: "length (ordered_bits bm n w) = nat n * nat w"
  by (simp add: ordered_bits_def length_concat comp_def length_bits_from_bmask
      sum_list_triv length_py_range)

lemma maxcut_score_dashboard:
  "maxcut_score (ordered_bits bm NUM_SLAVES 4) EDGES =
     Inr (cut_weight (ordered_bits bm NUM_SLAVES 4) EDGES)"
proof -
  have "length (ordered_bits bm NUM_SLAVES 4) = 16"
    by (simp add: length_ordered_bits NUM_SLAVES_def)
  then have "in_range (ordered_bits bm NUM_SLAVES 4) EDGES"
    by (rule in_range_EDGES)
  then show ?thesis
    by (simp add: maxcut_score_in_range)
qed

lemma update_aggregate_eq:
  "update_aggregate st tick sidx bmask =
     (let buf = store tick sidx bmask (self_tick_buffer st);
          st1 = st\<lparr>self_tick_buffer := buf\<rparr>;
          bits = ordered_bits (\<lambda>s. the (map_of (units_of buf tick) s)) NUM_SLAVES 4
      in Inr (if has_all (units_of buf tick) NUM_SLAVES
              then (record_sample st1 tick bits (cut_weight bits EDGES))
                     \<lparr>self_tick_buffer := cleanup buf\<rparr>
              else if NUM_SLAVES \<le> int (length (units_of buf tick))
              then st1\<lparr>self_tick_buffer := cleanup buf\<rparr>
              else st1))"
proof -
  let ?buf = "store tick sidx bmask (self_tick_buffer st)"
  let ?e = "units_of ?buf tick"
  show ?thesis
  proof (cases "has_all ?e NUM_SLAVES")
    case True
    have len: "NUM_SLAVES \<le> int (length ?e)"
      using True by (rule has_all_length)
    have vec: "full_vec ?e = map (\<lambda>s. bits_from_bmask (the (map_of ?e s)) 4) (py_range NUM_SLAVES)"
      using True by (rule full_vec_has_all)
    have full: "int (length (full_vec ?e)) = NUM_SLAVES"
      using True by (simp only: full_vec_complete)
    have ne: "full_vec ?e \<noteq> []"
      using full by (auto simp: NUM_SLAVES_def)
    have cat: "concatenate (full_vec ?e) = Inr (ordered_bits (\<lambda>s. the (map_of ?e s)) NUM_SLAVES 4)"
      using ne by (simp add: concatenate_def ordered_bits_def vec)
    show ?thesis
      unfolding update_aggregate_def Let_def
      by (simp add: len full cat True maxcut_score_dashboard)
  next
    case False
    then have "int (length (full_vec ?e)) \<noteq> NUM_SLAVES"
      by (simp only: full_vec_complete not_False_eq_True)
    with False show ?thesis
      unfolding update_aggregate_def Let_def by simp
  qed
qed

lemma self_all_samples_anneal [simp]:
  "self_all_samples (anneal g st) = self_all_samples st"
  "self_sample_count (anneal g st) = self_sample_count st"
  "self_tick_buffer (anneal g st) = self_tick_buffer st"
  "self_best_score (anneal g st) = self_best_score st"
  "self_best_bits (anneal g st) = self_best_bits st"
  by (simp_all add: anneal_def Let_def)

lemma update_ingest_eq:
  "update_ingest g st tick sidx bmask =
     (let buf = store tick sidx bmask (self_tick_buffer st);
          st1 = st\<lparr>self_tick_buffer := buf\<rparr>;
          bits = ordered_bits (\<lambda>s. the (map_of (units_of buf tick) s)) NUM_SLAVES 4
      in anneal g (if has_all (units_of buf tick) NUM_SLAVES
              then (record_sample st1 tick bits (cut_weight bits EDGES))
                     \<lparr>self_tick_buffer := cleanup buf\<rparr>
              else if NUM_SLAVES \<le> int (length (units_of buf tick))
              then st1\<lparr>self_tick_buffer := cleanup buf\<rparr>
              else st1))"
  by (simp add: update_ingest_def update_aggregate_eq Let_def)

lemma self_all_samples_record_sample:
  "self_all_samples (record_sample st tick bits score) =
     self_all_samples st @ [\<lparr>s_tick = tick, s_score = score, s_bits = bits\<rparr>]"
  "self_sample_count (record_sample st tick bits score) = self_sample_count st + 1"
  by (simp_all add: record_sample_def Let_def)

section \<open>Properties of the adaptive controller and of the start sequence\<close>

lemma record_sample_frame:
  "self_written (record_sample st tick bits score) = self_written st"
  "self_last_sent_t (record_sample st tick bits score) = self_last_sent_t st"
  "self_batch_k (record_sample st tick bits score) = self_batch_k st"
  by (simp_all add: record_sample_def Let_def)

lemma update_aggregate_total: "\<exists>mid. update_aggregate st tick sidx bmask = Inr mid"
  by (simp add: update_aggregate_eq Let_def)

lemma update_aggregate_frame:
  assumes "update_aggregate st tick sidx bmask = Inr mid"
  shows "self_written mid = self_written st"
    and "self_last_sent_t mid = self_last_sent_t st"
    and "self_batch_k mid = self_batch_k st"
  using assms
  by (auto simp: update_aggregate_eq Let_def record_sample_frame split: if_splits)

lemma update_ingest_anneal:
  "\<exists>mid. update_ingest g st tick sidx bmask = anneal g mid
     \<and> self_written mid = self_written st
     \<and> self_last_sent_t mid = self_last_sent_t st
     \<and> self_batch_k mid = self_batch_k st"
proof -
  obtain mid where m: "update_aggregate st tick sidx bmask = Inr mid"
    using update_aggregate_total by blast
  have "update_ingest g st tick sidx bmask = anneal g mid"
    by (simp add: update_ingest_def m)
  with update_aggregate_frame [OF m] show ?thesis by blast
qed

text \<open>
  C9 (as amended). With the annealing box ticked, and as long as no intermediate result
  overflows, after every stored record the current temperature is, in double arithmetic,
  \<open>t_start + (t_end - t_start) * progress\<close>, where \<open>progress\<close> is
  \<open>sample_count / batch_k\<close> for the sample count reached by then when the requested count
  \<open>batch_k\<close> is positive, and 0 when it is not (the dashboard keeps the requested count
  as entered, so it can be zero or negative). A \<open>@PARAM\<close> command is written exactly
  when the double difference of that temperature and the last sent one is, in absolute
  value, at least the double nearest to 0.01. The command carries that temperature
  rounded to two decimals and the constants \<open>PARAM_B\<close>, \<open>PARAM_KP\<close>, \<open>PARAM_M\<close> (the values
  pushed at the start), while the last sent temperature becomes the temperature as
  computed, not as rounded. Otherwise nothing is written and the last sent temperature
  stays.
\<close>

theorem anneal_pushes_on_threshold:
  fixes g :: gui and st :: dashboard and tick sidx bmask :: int
  defines "st' \<equiv> update_ingest g st tick sidx bmask"
  defines "progress \<equiv>
      (if 0 < self_batch_k st
       then fdiv (of_int (self_sample_count st')) (of_int (self_batch_k st)) else 0)"
  defines "current_t \<equiv> fadd (t_start g) (fmul (fsub (t_end g) (t_start g)) progress)"
  assumes "anneal_active g"
    and "list_all finite_double
          [progress, fsub (t_end g) (t_start g), fmul (fsub (t_end g) (t_start g)) progress,
           current_t, fsub current_t (self_last_sent_t st)]"
  shows "(fround (1 / 100) \<le> \<bar>fsub current_t (self_last_sent_t st)\<bar> \<longrightarrow>
            self_written st' =
              self_written st @ [Param (format2 current_t) PARAM_B PARAM_KP PARAM_M]
            \<and> self_last_sent_t st' = current_t)
    \<and> (\<not> fround (1 / 100) \<le> \<bar>fsub current_t (self_last_sent_t st)\<bar> \<longrightarrow>
            self_written st' = self_written st
            \<and> self_last_sent_t st' = self_last_sent_t st)"
proof -
  obtain mid where mid: "st' = anneal g mid"
    and w: "self_written mid = self_written st"
    and l: "self_last_sent_t mid = self_last_sent_t st"
    and k: "self_batch_k mid = self_batch_k st"
    unfolding st'_def using update_ingest_anneal by blast
  have c: "self_sample_count st' = self_sample_count mid"
    by (simp add: mid anneal_def Let_def)
  show ?thesis
    using assms(4) unfolding current_t_def progress_def c
    by (simp add: mid anneal_def Let_def w l k)
qed

theorem anneal_pushes_on_threshold_witness:
  "anneal_active \<lparr>k_val = 32, t_val = 1 / 5, anneal_active = True, t_start = 1 / 2, t_end = 1 / 4\<rparr>
   \<and> list_all finite_double
        [fdiv 2 32, fsub (1 / 4) (1 / 2), fmul (fsub (1 / 4) (1 / 2)) (fdiv 2 32),
         fadd (1 / 2) (fmul (fsub (1 / 4) (1 / 2)) (fdiv 2 32)),
         fsub (fadd (1 / 2) (fmul (fsub (1 / 4) (1 / 2)) (fdiv 2 32))) (1 / 2)]
   \<and> list_all finite_double
        [fdiv 1 32, fsub (1 / 4) (1 / 2), fmul (fsub (1 / 4) (1 / 2)) (fdiv 1 32),
         fadd (1 / 2) (fmul (fsub (1 / 4) (1 / 2)) (fdiv 1 32)),
         fsub (fadd (1 / 2) (fmul (fsub (1 / 4) (1 / 2)) (fdiv 1 32))) (1 / 2)]
   \<and> self_sample_count (update_ingest
          \<lparr>k_val = 32, t_val = 1 / 5, anneal_active = True, t_start = 1 / 2, t_end = 1 / 4\<rparr>
          (dashboard_init\<lparr>self_sample_count := 1, self_last_sent_t := 1 / 2, self_batch_k := 32,
            self_tick_buffer := [(9, [(0, 5), (2, 1), (3, 15)])]\<rparr>) 9 1 2) = 2
   \<and> self_written (update_ingest
          \<lparr>k_val = 32, t_val = 1 / 5, anneal_active = True, t_start = 1 / 2, t_end = 1 / 4\<rparr>
          (dashboard_init\<lparr>self_sample_count := 1, self_last_sent_t := 1 / 2, self_batch_k := 32,
            self_tick_buffer := [(9, [(0, 5), (2, 1), (3, 15)])]\<rparr>) 9 1 2)
        = [Param (12 / 25) PARAM_B PARAM_KP PARAM_M]
   \<and> self_last_sent_t (update_ingest
          \<lparr>k_val = 32, t_val = 1 / 5, anneal_active = True, t_start = 1 / 2, t_end = 1 / 4\<rparr>
          (dashboard_init\<lparr>self_sample_count := 1, self_last_sent_t := 1 / 2, self_batch_k := 32,
            self_tick_buffer := [(9, [(0, 5), (2, 1), (3, 15)])]\<rparr>) 9 1 2) = 31 / 64
   \<and> self_sample_count (update_ingest
          \<lparr>k_val = 32, t_val = 1 / 5, anneal_active = True, t_start = 1 / 2, t_end = 1 / 4\<rparr>
          (dashboard_init\<lparr>self_sample_count := 1, self_last_sent_t := 1 / 2, self_batch_k := 32,
            self_tick_buffer := [(9, [(0, 5), (2, 1), (3, 15)])]\<rparr>) 8 1 2) = 1
   \<and> self_written (update_ingest
          \<lparr>k_val = 32, t_val = 1 / 5, anneal_active = True, t_start = 1 / 2, t_end = 1 / 4\<rparr>
          (dashboard_init\<lparr>self_sample_count := 1, self_last_sent_t := 1 / 2, self_batch_k := 32,
            self_tick_buffer := [(9, [(0, 5), (2, 1), (3, 15)])]\<rparr>) 8 1 2) = []
   \<and> self_last_sent_t (update_ingest
          \<lparr>k_val = 32, t_val = 1 / 5, anneal_active = True, t_start = 1 / 2, t_end = 1 / 4\<rparr>
          (dashboard_init\<lparr>self_sample_count := 1, self_last_sent_t := 1 / 2, self_batch_k := 32,
            self_tick_buffer := [(9, [(0, 5), (2, 1), (3, 15)])]\<rparr>) 8 1 2) = 1 / 2"
proof -
  let ?g = "\<lparr>k_val = 32, t_val = 1 / 5, anneal_active = True, t_start = 1 / 2, t_end = 1 / 4\<rparr>"
  let ?D = "dashboard_init\<lparr>self_sample_count := 1, self_last_sent_t := 1 / 2, self_batch_k := 32,
            self_tick_buffer := [(9, [(0, 5), (2, 1), (3, 15)])]\<rparr>"
  have on: "anneal_active ?g" by simp
  have k: "self_batch_k ?D = 32" "self_last_sent_t ?D = 1 / 2" "self_written ?D = []"
    by (simp_all add: dashboard_init_def)
  have n1: "self_sample_count (update_ingest ?g ?D 9 1 2) = 2"
    by code_simp
  have n2: "self_sample_count (update_ingest ?g ?D 8 1 2) = 1"
    by code_simp
  have t: "t_start ?g = 1 / 2" "t_end ?g = 1 / 4" by simp_all
  have c1: "fadd (1 / 2) (fmul (fsub (1 / 4) (1 / 2)) (fdiv 2 32)) = 31 / 64"
    by code_simp
  have c2: "fadd (1 / 2) (fmul (fsub (1 / 4) (1 / 2)) (fdiv 1 32)) = 63 / 128"
    by code_simp
  have d1: "fround (1 / 100) \<le> \<bar>fsub (31 / 64) (1 / 2)\<bar>"
    by code_simp
  have d2: "\<not> fround (1 / 100) \<le> \<bar>fsub (63 / 128) (1 / 2)\<bar>"
    by code_simp
  have f: "format2 (31 / 64) = 12 / 25"
    by code_simp
  have v: "fdiv 2 32 = 1 / 16" "fdiv 1 32 = 1 / 32" "fsub (1 / 4) (1 / 2) = - (1 / 4)"
    "fmul (- (1 / 4)) (1 / 16) = - (1 / 64)" "fmul (- (1 / 4)) (1 / 32) = - (1 / 128)"
    "fadd (1 / 2) (- (1 / 64)) = 31 / 64" "fadd (1 / 2) (- (1 / 128)) = 63 / 128"
    "fsub (31 / 64) (1 / 2) = - (1 / 64)" "fsub (63 / 128) (1 / 2) = - (1 / 128)"
    by code_simp+
  have r1: "list_all finite_double
        [fdiv 2 32, fsub (1 / 4) (1 / 2), fmul (fsub (1 / 4) (1 / 2)) (fdiv 2 32),
         fadd (1 / 2) (fmul (fsub (1 / 4) (1 / 2)) (fdiv 2 32)),
         fsub (fadd (1 / 2) (fmul (fsub (1 / 4) (1 / 2)) (fdiv 2 32))) (1 / 2)]"
    by (simp add: v finite_double_def)
  have r2: "list_all finite_double
        [fdiv 1 32, fsub (1 / 4) (1 / 2), fmul (fsub (1 / 4) (1 / 2)) (fdiv 1 32),
         fadd (1 / 2) (fmul (fsub (1 / 4) (1 / 2)) (fdiv 1 32)),
         fsub (fadd (1 / 2) (fmul (fsub (1 / 4) (1 / 2)) (fdiv 1 32))) (1 / 2)]"
    by (simp add: v finite_double_def)
  have g1: "list_all finite_double
        [if 0 < self_batch_k ?D
         then fdiv (of_int (self_sample_count (update_ingest ?g ?D 9 1 2))) (of_int (self_batch_k ?D))
         else 0,
         fsub (t_end ?g) (t_start ?g),
         fmul (fsub (t_end ?g) (t_start ?g))
           (if 0 < self_batch_k ?D
            then fdiv (of_int (self_sample_count (update_ingest ?g ?D 9 1 2))) (of_int (self_batch_k ?D))
            else 0),
         fadd (t_start ?g) (fmul (fsub (t_end ?g) (t_start ?g))
           (if 0 < self_batch_k ?D
            then fdiv (of_int (self_sample_count (update_ingest ?g ?D 9 1 2))) (of_int (self_batch_k ?D))
            else 0)),
         fsub (fadd (t_start ?g) (fmul (fsub (t_end ?g) (t_start ?g))
           (if 0 < self_batch_k ?D
            then fdiv (of_int (self_sample_count (update_ingest ?g ?D 9 1 2))) (of_int (self_batch_k ?D))
            else 0))) (self_last_sent_t ?D)]"
    using r1 unfolding n1 k t by simp
  have g2: "list_all finite_double
        [if 0 < self_batch_k ?D
         then fdiv (of_int (self_sample_count (update_ingest ?g ?D 8 1 2))) (of_int (self_batch_k ?D))
         else 0,
         fsub (t_end ?g) (t_start ?g),
         fmul (fsub (t_end ?g) (t_start ?g))
           (if 0 < self_batch_k ?D
            then fdiv (of_int (self_sample_count (update_ingest ?g ?D 8 1 2))) (of_int (self_batch_k ?D))
            else 0),
         fadd (t_start ?g) (fmul (fsub (t_end ?g) (t_start ?g))
           (if 0 < self_batch_k ?D
            then fdiv (of_int (self_sample_count (update_ingest ?g ?D 8 1 2))) (of_int (self_batch_k ?D))
            else 0)),
         fsub (fadd (t_start ?g) (fmul (fsub (t_end ?g) (t_start ?g))
           (if 0 < self_batch_k ?D
            then fdiv (of_int (self_sample_count (update_ingest ?g ?D 8 1 2))) (of_int (self_batch_k ?D))
            else 0))) (self_last_sent_t ?D)]"
    using r2 unfolding n2 k t by simp
  note a = anneal_pushes_on_threshold [OF on g1]
  note b = anneal_pushes_on_threshold [OF on g2]
  have a': "self_written (update_ingest ?g ?D 9 1 2) = [Param (12 / 25) PARAM_B PARAM_KP PARAM_M]
      \<and> self_last_sent_t (update_ingest ?g ?D 9 1 2) = 31 / 64"
    using a d1 unfolding n1 k t by (simp add: c1 f)
  have b': "self_written (update_ingest ?g ?D 8 1 2) = []
      \<and> self_last_sent_t (update_ingest ?g ?D 8 1 2) = 1 / 2"
    using b d2 unfolding n2 k t by (simp add: c2)
  from on n1 n2 a' b' r1 r2 show ?thesis
    by (intro conjI) simp_all
qed

text \<open>
  C9 as first stated fails on two counts. With the requested count -10 entered before
  the start, the first scored sample gives by the stated formula the temperature
  \<open>1/2 + (1/4 - 1/2) * (1 / -10)\<close>, which is 0.025 away from the last sent 0.5, in
  real and in double arithmetic alike, yet the dashboard takes the progress to be 0 and
  writes nothing. With the requested count 32, the second scored sample writes
  \<open>N=0.48\<close> while the last sent temperature becomes 0.484375, not the value written.
\<close>

theorem anneal_departs_from_formula:
  "self_batch_k (on_start True
       \<lparr>k_val = - 10, t_val = 1 / 5, anneal_active = True, t_start = 1 / 2, t_end = 1 / 4\<rparr>
       dashboard_init) = - 10
   \<and> self_last_sent_t (on_start True
       \<lparr>k_val = - 10, t_val = 1 / 5, anneal_active = True, t_start = 1 / 2, t_end = 1 / 4\<rparr>
       dashboard_init) = 1 / 2
   \<and> self_sample_count (update_run
       \<lparr>k_val = - 10, t_val = 1 / 5, anneal_active = True, t_start = 1 / 2, t_end = 1 / 4\<rparr>
       (on_start True
         \<lparr>k_val = - 10, t_val = 1 / 5, anneal_active = True, t_start = 1 / 2, t_end = 1 / 4\<rparr>
         dashboard_init)
       [(0, 0, 5), (0, 1, 2), (0, 2, 1), (0, 3, 15)]) = 1
   \<and> (1 :: real) / 100 \<le> \<bar>(1 / 2 + (1 / 4 - 1 / 2) * (1 / (- 10))) - 1 / 2\<bar>
   \<and> fround (1 / 100) \<le> \<bar>fsub (fadd (1 / 2) (fmul (fsub (1 / 4) (1 / 2)) (fdiv 1 (- 10)))) (1 / 2)\<bar>
   \<and> self_written (update_run
       \<lparr>k_val = - 10, t_val = 1 / 5, anneal_active = True, t_start = 1 / 2, t_end = 1 / 4\<rparr>
       (on_start True
         \<lparr>k_val = - 10, t_val = 1 / 5, anneal_active = True, t_start = 1 / 2, t_end = 1 / 4\<rparr>
         dashboard_init)
       [(0, 0, 5), (0, 1, 2), (0, 2, 1), (0, 3, 15)])
     = [Hello, Param (1 / 2) 5 60 1, Get (- 10) 1 50]
   \<and> self_written (update_run
       \<lparr>k_val = 32, t_val = 1 / 5, anneal_active = True, t_start = 1 / 2, t_end = 1 / 4\<rparr>
       (on_start True
         \<lparr>k_val = 32, t_val = 1 / 5, anneal_active = True, t_start = 1 / 2, t_end = 1 / 4\<rparr>
         dashboard_init)
       [(0, 0, 5), (0, 1, 2), (0, 2, 1), (0, 3, 15), (1, 0, 5), (1, 1, 2), (1, 2, 1), (1, 3, 15)])
     = [Hello, Param (1 / 2) 5 60 1, Get 32 1 50, Param (12 / 25) 5 60 1]
   \<and> self_last_sent_t (update_run
       \<lparr>k_val = 32, t_val = 1 / 5, anneal_active = True, t_start = 1 / 2, t_end = 1 / 4\<rparr>
       (on_start True
         \<lparr>k_val = 32, t_val = 1 / 5, anneal_active = True, t_start = 1 / 2, t_end = 1 / 4\<rparr>
         dashboard_init)
       [(0, 0, 5), (0, 1, 2), (0, 2, 1), (0, 3, 15), (1, 0, 5), (1, 1, 2), (1, 2, 1), (1, 3, 15)])
     = 31 / 64"
  by code_simp

lemma clamp_int_bounds: "lo \<le> hi \<Longrightarrow> lo \<le> clamp_int x lo hi \<and> clamp_int x lo hi \<le> hi"
  by (simp add: clamp_int_def)

lemma clamp_float_bounds: "lo \<le> hi \<Longrightarrow> lo \<le> clamp_float x lo hi \<and> clamp_float x lo hi \<le> hi"
  by (simp add: clamp_float_def)

lemma main_start_eq:
  "main_start c =
     [Hello,
      Param (format2 (clamp_float (param_t c) 0 1)) (clamp_int (param_b c) (- 127) 127)
        (clamp_int (param_kp c) 0 255) (clamp_int (param_m c) 0 255),
      Get (clamp_int (batch_k c) 1 2000) (clamp_int (batch_stride c) 1 1000)
        (clamp_int (batch_burn c) 0 5000)]"
  by (simp add: main_start_def main_clamp_def Let_def)

lemma main_start_in_range:
  assumes "main_start c = [Hello, Param t b kp m, Get k s bu]"
  shows "0 \<le> t \<and> t \<le> 1 \<and> - 127 \<le> b \<and> b \<le> 127 \<and> 0 \<le> kp \<and> kp \<le> 255
    \<and> 0 \<le> m \<and> m \<le> 255 \<and> 1 \<le> k \<and> k \<le> 2000 \<and> 1 \<le> s \<and> s \<le> 1000
    \<and> 0 \<le> bu \<and> bu \<le> 5000"
proof -
  from assms have e: "t = format2 (clamp_float (param_t c) 0 1)"
    "b = clamp_int (param_b c) (- 127) 127"
    "kp = clamp_int (param_kp c) 0 255" "m = clamp_int (param_m c) 0 255"
    "k = clamp_int (batch_k c) 1 2000" "s = clamp_int (batch_stride c) 1 1000"
    "bu = clamp_int (batch_burn c) 0 5000"
    by (simp_all add: main_start_eq)
  show ?thesis
    unfolding e
    using format2_bounds [of "clamp_float (param_t c) 0 1"]
      clamp_float_bounds [of 0 1 "param_t c"] clamp_int_bounds [of "- 127" 127 "param_b c"]
      clamp_int_bounds [of 0 255 "param_kp c"] clamp_int_bounds [of 0 255 "param_m c"]
      clamp_int_bounds [of 1 2000 "batch_k c"] clamp_int_bounds [of 1 1000 "batch_stride c"]
      clamp_int_bounds [of 0 5000 "batch_burn c"]
    by simp
qed

lemma clamp_int_id: "lo \<le> x \<Longrightarrow> x \<le> hi \<Longrightarrow> clamp_int x lo hi = x"
  by (simp add: clamp_int_def)

lemma clamp_float_id: "lo \<le> x \<Longrightarrow> x \<le> hi \<Longrightarrow> clamp_float x lo hi = x"
  by (simp add: clamp_float_def)

text \<open>
  C6. The dashboard's \<open>on_start\<close> writes the sample count and the temperature to the
  link as the widgets hold them: for the inputs K = 5000 and T = 2.5 it writes
  \<open>@PARAM N=2.5 ..\<close> and \<open>@GET K=5000 ..\<close>, where the console client, for the same
  values, writes them clamped to 1 and 2000.
\<close>

theorem on_start_writes_unclamped:
  "self_written (on_start True
      \<lparr>k_val = 5000, t_val = 5 / 2, anneal_active = False, t_start = 7 / 20, t_end = 1 / 20\<rparr>
      dashboard_init)
     = [Hello, Param (5 / 2) 5 60 1, Get 5000 1 50]
   \<and> main_start \<lparr>num_slaves = 4, bits_per_slave = 4, param_t = 5 / 2, param_b = 5,
        param_kp = 60, param_m = 1, batch_k = 5000, batch_stride = 1, batch_burn = 50\<rparr>
     = [Hello, Param 1 5 60 1, Get 2000 1 50]"
proof -
  have f: "format2 (5 / 2) = 5 / 2" "format2 1 = 1"
    by code_simp+
  show ?thesis
    by (simp add: on_start_def dashboard_init_def main_start_def main_clamp_def clamp_int_def
        clamp_float_def Let_def PARAM_B_def PARAM_KP_def PARAM_M_def BATCH_STRIDE_def
        BATCH_BURN_def f)
qed

section \<open>Properties of the line readers\<close>

lemma startswith_data:
  assumes "startswith line ''O,''"
  shows "\<not> startswith line ''@BATCH''" and "\<not> startswith line ''@DONE''"
proof -
  from assms obtain rest where "line = CHR ''O'' # rest"
    by (cases line) (simp_all add: startswith_def)
  then show "\<not> startswith line ''@BATCH''" and "\<not> startswith line ''@DONE''"
    by (simp_all add: startswith_def)
qed

lemma main_parse_None:
  "pint (parts ! 1) = None \<or> pint (parts ! 2) = None \<or> pint (parts ! 3) = None
    \<or> pint (parts ! 4) = None \<or> pfloat (parts ! 5) = None \<or> pint (parts ! 6) = None
   \<Longrightarrow> main_parse pint pfloat parts = None"
  by (auto simp: main_parse_def split: option.splits)

lemma update_parse_None:
  "pint (parts ! 1) = None \<or> pint (parts ! 2) = None \<or> pint (parts ! 3) = None
   \<Longrightarrow> update_parse pint parts = None"
  by (auto simp: update_parse_def split: option.splits)

lemma anneal_tick_buffer: "self_tick_buffer (anneal g st) = self_tick_buffer st"
  by (simp add: anneal_def Let_def)

lemma record_sample_tick_buffer:
  "self_tick_buffer (record_sample st tick bits score) = self_tick_buffer st"
  by (simp add: record_sample_def Let_def)

lemma update_ingest_tick_buffer:
  "self_tick_buffer (update_ingest g st tick sidx bmask) =
     (if NUM_SLAVES \<le> int (length (units_of (store tick sidx bmask (self_tick_buffer st)) tick))
      then cleanup (store tick sidx bmask (self_tick_buffer st))
      else store tick sidx bmask (self_tick_buffer st))"
proof -
  let ?e = "units_of (store tick sidx bmask (self_tick_buffer st)) tick"
  have "has_all ?e NUM_SLAVES \<Longrightarrow> NUM_SLAVES \<le> int (length ?e)"
    by (rule has_all_length)
  then show ?thesis
    by (auto simp: update_ingest_def update_aggregate_eq Let_def anneal_tick_buffer
        record_sample_tick_buffer)
qed

lemma stored_unit: "map_of (units_of (store tick sidx p buf) tick) sidx = Some p"
  by (simp add: units_of_store_same update_conv')

text \<open>
  C5 (as amended). For a line that starts with \<open>O,\<close>: when it has fewer than 7
  comma-separated fields, or one of the fields 1, 2, 3 is not read as an integer, both
  clients drop it: nothing is raised, the state (the tick buffer of every tick with it)
  is what it was, no sample is scored, and the loop goes on. The console client drops it
  as well when field 4 or 6 is not read as an integer or field 5 not as a float, and
  takes it in as a record when it has at least 7 fields and all six are read. The
  dashboard never reads the fields 4 to 6: a line with at least 7 fields whose fields
  1, 2, 3 are read as tick, unit and mask is taken in like any record, whatever the
  fields 4 to 6 hold. The mask is stored for that unit of that tick, and the buffer left
  behind is the buffer with that record stored, or the cleanup of it when the tick then
  has at least \<open>NUM_SLAVES\<close> units; that cleanup can evict the very tick of the line.
\<close>

theorem malformed_line_dropped:
  fixes st :: main_state and ds :: dashboard and line :: string
  defines "parts \<equiv> split_comma line"
  defines "buf \<equiv> \<lambda>tick sidx bmask. store tick sidx bmask (self_tick_buffer ds)"
  assumes "startswith line ''O,''"
  shows "(length parts < 7 \<or> pint (parts ! 1) = None \<or> pint (parts ! 2) = None
            \<or> pint (parts ! 3) = None \<or> pint (parts ! 4) = None
            \<or> pfloat (parts ! 5) = None \<or> pint (parts ! 6) = None
          \<longrightarrow> main_line pint pfloat n width edges st line = Inr ((st, None), True))
    \<and> (length parts < 7 \<or> pint (parts ! 1) = None \<or> pint (parts ! 2) = None
            \<or> pint (parts ! 3) = None
          \<longrightarrow> update_line pint g ds line = (ds, True))
    \<and> (7 \<le> length parts \<and> pint (parts ! 1) = Some tick \<and> pint (parts ! 2) = Some sidx
            \<and> pint (parts ! 3) = Some bmask
          \<longrightarrow> update_line pint g ds line = (update_ingest g ds tick sidx bmask, True)
            \<and> map_of (units_of (buf tick sidx bmask) tick) sidx = Some bmask
            \<and> self_tick_buffer (update_ingest g ds tick sidx bmask) =
                (if NUM_SLAVES \<le> int (length (units_of (buf tick sidx bmask) tick))
                 then cleanup (buf tick sidx bmask) else buf tick sidx bmask))
    \<and> (7 \<le> length parts \<and> pint (parts ! 1) = Some tick \<and> pint (parts ! 2) = Some sidx
            \<and> pint (parts ! 3) = Some bmask \<and> pint (parts ! 4) = Some loss
            \<and> pfloat (parts ! 5) = Some noise \<and> pint (parts ! 6) = Some seed
          \<longrightarrow> main_line pint pfloat n width edges st line =
              (case main_ingest n width edges st tick sidx (bmask, loss, noise, seed) of
                 Inl e \<Rightarrow> Inl e
               | Inr r \<Rightarrow> Inr (r, True)))"
proof -
  note p = startswith_data [OF assms(3)]
  have a: "main_line pint pfloat n width edges st line = Inr ((st, None), True)"
    if "length parts < 7 \<or> main_parse pint pfloat parts = None"
    using that assms(3) p unfolding parts_def
    by (auto simp: main_line_def Let_def)
  have b: "update_line pint g ds line = (ds, True)"
    if "length parts < 7 \<or> update_parse pint parts = None"
    using that assms(3) p unfolding parts_def
    by (auto simp: update_line_def Let_def)
  have c1: "main_line pint pfloat n width edges st line = Inr ((st, None), True)"
    if h: "length parts < 7 \<or> pint (parts ! 1) = None \<or> pint (parts ! 2) = None
            \<or> pint (parts ! 3) = None \<or> pint (parts ! 4) = None
            \<or> pfloat (parts ! 5) = None \<or> pint (parts ! 6) = None"
  proof (cases "length parts < 7")
    case True
    then show ?thesis by (simp add: a)
  next
    case False
    with h have "main_parse pint pfloat parts = None"
      by (intro main_parse_None) simp
    then show ?thesis by (simp add: a)
  qed
  have c2: "update_line pint g ds line = (ds, True)"
    if h: "length parts < 7 \<or> pint (parts ! 1) = None \<or> pint (parts ! 2) = None
            \<or> pint (parts ! 3) = None"
  proof (cases "length parts < 7")
    case True
    then show ?thesis by (simp add: b)
  next
    case False
    with h have "update_parse pint parts = None"
      by (intro update_parse_None) simp
    then show ?thesis by (simp add: b)
  qed
  have c3: "update_line pint g ds line = (update_ingest g ds tick sidx bmask, True)"
    if "7 \<le> length parts \<and> pint (parts ! 1) = Some tick \<and> pint (parts ! 2) = Some sidx
            \<and> pint (parts ! 3) = Some bmask"
    using that assms(3) p unfolding parts_def
    by (simp add: update_line_def Let_def update_parse_def)
  have c4: "main_line pint pfloat n width edges st line =
              (case main_ingest n width edges st tick sidx (bmask, loss, noise, seed) of
                 Inl e \<Rightarrow> Inl e
               | Inr r \<Rightarrow> Inr (r, True))"
    if "7 \<le> length parts \<and> pint (parts ! 1) = Some tick \<and> pint (parts ! 2) = Some sidx
            \<and> pint (parts ! 3) = Some bmask \<and> pint (parts ! 4) = Some loss
            \<and> pfloat (parts ! 5) = Some noise \<and> pint (parts ! 6) = Some seed"
    using that assms(3) p unfolding parts_def
    by (simp add: main_line_def Let_def main_parse_def)
  have c5: "map_of (units_of (buf tick sidx bmask) tick) sidx = Some bmask"
    unfolding buf_def by (rule stored_unit)
  have c6: "self_tick_buffer (update_ingest g ds tick sidx bmask) =
                (if NUM_SLAVES \<le> int (length (units_of (buf tick sidx bmask) tick))
                 then cleanup (buf tick sidx bmask) else buf tick sidx bmask)"
    unfolding buf_def by (rule update_ingest_tick_buffer)
  show ?thesis
    using c1 c2 c3 c4 c5 c6 by blast
qed

theorem malformed_line_dropped_witness:
  "startswith ''O,5,1,abc,0,0.0,9'' ''O,''
   \<and> decimal (split_comma ''O,5,1,abc,0,0.0,9'' ! 3) = None
   \<and> main_line decimal decimal_float 4 4 (build_edges 16)
        (main_init\<lparr>tick_buffer := [(5, [(0, (5, 0, 0, 0))])]\<rparr>) ''O,5,1,abc,0,0.0,9''
      = Inr ((main_init\<lparr>tick_buffer := [(5, [(0, (5, 0, 0, 0))])]\<rparr>, None), True)
   \<and> update_line decimal
        \<lparr>k_val = 300, t_val = 1 / 5, anneal_active = False, t_start = 7 / 20, t_end = 1 / 20\<rparr>
        (dashboard_init\<lparr>self_tick_buffer := [(5, [(0, 5)])]\<rparr>) ''O,5,1,abc,0,0.0,9''
      = (dashboard_init\<lparr>self_tick_buffer := [(5, [(0, 5)])]\<rparr>, True)
   \<and> startswith ''O,5,1'' ''O,'' \<and> length (split_comma ''O,5,1'') < 7
   \<and> update_line decimal
        \<lparr>k_val = 300, t_val = 1 / 5, anneal_active = False, t_start = 7 / 20, t_end = 1 / 20\<rparr>
        (dashboard_init\<lparr>self_tick_buffer := [(5, [(0, 5)])]\<rparr>) ''O,5,1''
      = (dashboard_init\<lparr>self_tick_buffer := [(5, [(0, 5)])]\<rparr>, True)
   \<and> startswith ''O,0,7,3,x,y,z'' ''O,''
   \<and> 7 \<le> length (split_comma ''O,0,7,3,x,y,z'')
   \<and> decimal (split_comma ''O,0,7,3,x,y,z'' ! 1) = Some 0
   \<and> decimal (split_comma ''O,0,7,3,x,y,z'' ! 2) = Some 7
   \<and> decimal (split_comma ''O,0,7,3,x,y,z'' ! 3) = Some 3
   \<and> self_tick_buffer (fst (update_line decimal
        \<lparr>k_val = 300, t_val = 1 / 5, anneal_active = False, t_start = 7 / 20, t_end = 1 / 20\<rparr>
        (dashboard_init\<lparr>self_tick_buffer := [(0, [(0, 5)])]\<rparr>) ''O,0,7,3,x,y,z''))
      = [(0, [(0, 5), (7, 3)])]
   \<and> length (self_tick_buffer (dashboard_init\<lparr>self_tick_buffer :=
          map (\<lambda>t. (t, [(0, 5), (1, 2), (2, 1)])) (py_range 51)\<rparr>)) = 51
   \<and> map fst (self_tick_buffer (fst (update_line decimal
        \<lparr>k_val = 300, t_val = 1 / 5, anneal_active = False, t_start = 7 / 20, t_end = 1 / 20\<rparr>
        (dashboard_init\<lparr>self_tick_buffer :=
          map (\<lambda>t. (t, [(0, 5), (1, 2), (2, 1)])) (py_range 51)\<rparr>) ''O,0,7,3,x,y,z'')))
      = map int [31..<51]"
proof -
  let ?g = "\<lparr>k_val = 300, t_val = 1 / 5, anneal_active = False, t_start = 7 / 20, t_end = 1 / 20\<rparr>"
  let ?D1 = "dashboard_init\<lparr>self_tick_buffer := [(0, [(0, 5 :: int)])]\<rparr>"
  let ?D2 = "dashboard_init\<lparr>self_tick_buffer :=
          map (\<lambda>t. (t, [(0, 5 :: int), (1, 2), (2, 1)])) (py_range 51)\<rparr>"
  have s: "startswith ''O,5,1,abc,0,0.0,9'' ''O,''" and s': "startswith ''O,5,1'' ''O,''"
    and s'': "startswith ''O,0,7,3,x,y,z'' ''O,''"
    by (simp_all add: startswith_def)
  have bad: "decimal (split_comma ''O,5,1,abc,0,0.0,9'' ! 3) = None"
    by code_simp
  have short: "length (split_comma ''O,5,1'') < 7"
    by code_simp
  have long: "7 \<le> length (split_comma ''O,0,7,3,x,y,z'')"
    by code_simp
  have f1: "decimal (split_comma ''O,0,7,3,x,y,z'' ! 1) = Some 0"
    and f2: "decimal (split_comma ''O,0,7,3,x,y,z'' ! 2) = Some 7"
    and f3: "decimal (split_comma ''O,0,7,3,x,y,z'' ! 3) = Some 3"
    by code_simp+
  have len: "length (self_tick_buffer ?D2) = 51"
    by code_simp
  have e1: "self_tick_buffer (update_ingest ?g ?D1 0 7 3) = [(0, [(0, 5), (7, 3)])]"
    by code_simp
  have e2: "map fst (self_tick_buffer (update_ingest ?g ?D2 0 7 3)) = map int [31..<51]"
    by code_simp
  note a = malformed_line_dropped [OF s, of decimal decimal_float]
  note b = malformed_line_dropped [OF s', of decimal decimal_float]
  note c = malformed_line_dropped [OF s'', of decimal decimal_float, THEN conjunct2,
      THEN conjunct2, THEN conjunct1, THEN mp, OF conjI [OF long conjI [OF f1 conjI [OF f2 f3]]],
      THEN conjunct1]
  have l1: "self_tick_buffer (fst (update_line decimal ?g ?D1 ''O,0,7,3,x,y,z''))
      = [(0, [(0, 5), (7, 3)])]"
    by (simp add: c e1)
  have l2: "map fst (self_tick_buffer (fst (update_line decimal ?g ?D2 ''O,0,7,3,x,y,z'')))
      = map int [31..<51]"
    by (simp only: c fst_conv e2)
  have m1: "main_line decimal decimal_float 4 4 (build_edges 16)
        (main_init\<lparr>tick_buffer := [(5, [(0, (5, 0, 0, 0))])]\<rparr>) ''O,5,1,abc,0,0.0,9''
      = Inr ((main_init\<lparr>tick_buffer := [(5, [(0, (5, 0, 0, 0))])]\<rparr>, None), True)"
    using a bad by blast
  have m2: "update_line decimal ?g (dashboard_init\<lparr>self_tick_buffer := [(5, [(0, 5)])]\<rparr>)
        ''O,5,1,abc,0,0.0,9'' = (dashboard_init\<lparr>self_tick_buffer := [(5, [(0, 5)])]\<rparr>, True)"
    using a bad by blast
  have m3: "update_line decimal ?g (dashboard_init\<lparr>self_tick_buffer := [(5, [(0, 5)])]\<rparr>)
        ''O,5,1'' = (dashboard_init\<lparr>self_tick_buffer := [(5, [(0, 5)])]\<rparr>, True)"
    using b short by blast
  show ?thesis
    by (intro conjI s bad m1 m2 s' short m3 s'' long f1 f2 f3 l1 l2 len)
qed

text \<open>
  The claim as it stands fails on the dashboard: the line \<open>O,5,1,3,x,y,z\<close> has 7 fields,
  its fields 4 and 6 are not integers and its field 5 is not a float, and yet unit 1 of
  tick 5 is stored.
\<close>

theorem malformed_line_stored_by_dashboard:
  "startswith ''O,5,1,3,x,y,z'' ''O,''
   \<and> length (split_comma ''O,5,1,3,x,y,z'') = 7
   \<and> decimal (split_comma ''O,5,1,3,x,y,z'' ! 4) = None
   \<and> decimal_float (split_comma ''O,5,1,3,x,y,z'' ! 5) = None
   \<and> decimal (split_comma ''O,5,1,3,x,y,z'' ! 6) = None
   \<and> self_tick_buffer dashboard_init = []
   \<and> self_tick_buffer (fst (update_line decimal
        \<lparr>k_val = 300, t_val = 1 / 5, anneal_active = False, t_start = 7 / 20, t_end = 1 / 20\<rparr>
        dashboard_init ''O,5,1,3,x,y,z'')) = [(5, [(1, 3)])]"
  by code_simp

section \<open>Properties of the retention policy\<close>

lemma length_delete_present:
  "distinct (map fst al) \<Longrightarrow> k \<in> fst ` set al \<Longrightarrow> length (AList.delete k al) = length al - 1"
proof (induction al)
  case Nil
  then show ?case by simp
next
  case (Cons a al)
  show ?case
  proof (cases "fst a = k")
    case True
    with Cons.prems have "k \<notin> fst ` set al" by auto
    then have "AList.delete k al = al"
      by (simp add: delete_id)
    with True show ?thesis by (cases a) (simp add: AList.delete_eq)
  next
    case False
    with Cons.prems have "k \<in> fst ` set al" and "distinct (map fst al)" by auto
    with Cons.IH have "length (AList.delete k al) = length al - 1" by simp
    moreover from \<open>k \<in> fst ` set al\<close> have "al \<noteq> []" by auto
    ultimately show ?thesis using False by (cases a) (simp add: AList.delete_eq)
  qed
qed

lemma length_fold_delete:
  "distinct (map fst al) \<Longrightarrow> distinct ks \<Longrightarrow> set ks \<subseteq> fst ` set al \<Longrightarrow>
     length (fold AList.delete ks al) = length al - length ks"
proof (induction ks arbitrary: al)
  case Nil
  show ?case by simp
next
  case (Cons k ks)
  have d: "distinct (map fst (AList.delete k al))"
    using Cons.prems(1) by (rule distinct_delete)
  have "fst ` set (AList.delete k al) = fst ` set al - {k}"
    by (simp add: AList.delete_eq image_iff set_eq_iff) force
  then have s: "set ks \<subseteq> fst ` set (AList.delete k al)"
    using Cons.prems by auto
  have "length (fold AList.delete ks (AList.delete k al)) = length (AList.delete k al) - length ks"
    using d _ s by (rule Cons.IH) (use Cons.prems in simp)
  also have "length (AList.delete k al) = length al - 1"
    using Cons.prems by (intro length_delete_present) auto
  finally show ?case by simp
qed

lemma length_cleanup:
  assumes "distinct (map fst buf)"
  shows "length (cleanup buf) = (if 50 < length buf then 20 else length buf)"
proof (cases "50 < length buf")
  case False
  then show ?thesis by (simp add: cleanup_def)
next
  case True
  let ?ks = "sort (map fst buf)"
  have "distinct (oldest buf)" "set (oldest buf) \<subseteq> fst ` set buf"
    using assms by (auto simp: oldest_def Let_def dest: in_set_takeD)
  with assms have "length (fold AList.delete (oldest buf) buf) = length buf - length (oldest buf)"
    by (rule length_fold_delete)
  moreover have "length (oldest buf) = length buf - 20"
    by (simp add: oldest_def Let_def)
  ultimately show ?thesis using True by (simp add: cleanup_def)
qed

text \<open>
  C3. The cleanup runs only inside the branch for a tick that has at least
  \<open>NUM_SLAVES\<close> units. After 51 records for 51 different ticks, one unit each, with 4
  units expected, both clients hold 51 ticks (more than the watermark 50) and have
  evicted none.
\<close>

theorem buffer_exceeds_watermark:
  "(case main_run 4 4 (build_edges 16) main_init (map (\<lambda>t. (int t, 0, (0, 0, 0, 0))) [0..<51]) of
      Inl e \<Rightarrow> False
    | Inr (st, outs) \<Rightarrow> length (tick_buffer st) = 51 \<and> outs = [])
   \<and> length (self_tick_buffer (update_run
        \<lparr>k_val = 300, t_val = 1 / 5, anneal_active = False, t_start = 7 / 20, t_end = 1 / 20\<rparr>
        dashboard_init (map (\<lambda>t. (int t, 0, 0)) [0..<51]))) = 51"
  by code_simp

section \<open>Properties of the best result\<close>

lemma best_over_append: "best_over b (xs @ ys) = best_over (best_over b xs) ys"
proof (induction xs arbitrary: b)
  case Nil
  show ?case by simp
next
  case (Cons x xs)
  obtain sc bits tk where b: "b = (sc, bits, tk)" by (cases b)
  show ?case by (simp add: b Cons.IH)
qed

lemma Max_insert_insert:
  fixes a b :: real
  assumes "finite A"
  shows "Max (insert a (insert b A)) = Max (insert (max a b) A)"
  using assms by (cases "A = {}") (simp_all add: max.assoc)

lemma best_over_score:
  "fst (best_over (sc, bits, tk) xs) = Max (insert sc (s_score ` set xs))"
proof (induction xs arbitrary: sc bits tk)
  case Nil
  show ?case by simp
next
  case (Cons x xs)
  have "fst (best_over (sc, bits, tk) (x # xs)) = Max (insert (max sc (s_score x)) (s_score ` set xs))"
  proof (cases "sc < s_score x")
    case True
    then have "max sc (s_score x) = s_score x" by simp
    with True show ?thesis by (simp add: Cons.IH)
  next
    case False
    then have "max sc (s_score x) = sc" by simp
    with False show ?thesis by (simp add: Cons.IH)
  qed
  also have "\<dots> = Max (insert sc (insert (s_score x) (s_score ` set xs)))"
    by (rule Max_insert_insert [symmetric]) simp
  finally show ?case by simp
qed

lemma best_over_mono: "sc \<le> fst (best_over (sc, bits, tk) xs)"
  by (simp add: best_over_score)

text \<open>When no sample beats the starting best it is kept whole; otherwise the result is
  taken from the first sample that has the final score.\<close>

lemma best_over_unchanged:
  "fst (best_over (sc, bits, tk) xs) = sc \<Longrightarrow> best_over (sc, bits, tk) xs = (sc, bits, tk)"
proof (induction xs arbitrary: sc bits tk)
  case Nil
  show ?case by simp
next
  case (Cons x xs)
  show ?case
  proof (cases "sc < s_score x")
    case True
    then have step: "best_over (sc, bits, tk) (x # xs) =
        best_over (s_score x, Some (s_bits x), Some (s_tick x)) xs"
      by simp
    have "s_score x \<le> fst (best_over (s_score x, Some (s_bits x), Some (s_tick x)) xs)"
      by (rule best_over_mono)
    with Cons.prems True show ?thesis
      unfolding step by simp
  next
    case False
    then have step: "best_over (sc, bits, tk) (x # xs) = best_over (sc, bits, tk) xs"
      by simp
    from Cons.prems show ?thesis
      unfolding step by (rule Cons.IH)
  qed
qed

lemma best_over_earliest:
  assumes "fst (best_over (sc, bits, tk) xs) \<noteq> sc"
  shows "\<exists>x. find (\<lambda>x. s_score x = fst (best_over (sc, bits, tk) xs)) xs = Some x
    \<and> best_over (sc, bits, tk) xs = (s_score x, Some (s_bits x), Some (s_tick x))"
  using assms
proof (induction xs arbitrary: sc bits tk)
  case Nil
  then show ?case by simp
next
  case (Cons x xs)
  show ?case
  proof (cases "sc < s_score x")
    case True
    let ?r = "best_over (s_score x, Some (s_bits x), Some (s_tick x)) xs"
    from True have step: "best_over (sc, bits, tk) (x # xs) = ?r"
      by simp
    show ?thesis
    proof (cases "fst ?r = s_score x")
      case eq: True
      then have "?r = (s_score x, Some (s_bits x), Some (s_tick x))"
        by (rule best_over_unchanged)
      then show ?thesis
        unfolding step by simp
    next
      case neq: False
      from Cons.IH [OF neq] obtain y where
        y: "find (\<lambda>x. s_score x = fst ?r) xs = Some y"
          "?r = (s_score y, Some (s_bits y), Some (s_tick y))"
        by blast
      have "find (\<lambda>x. s_score x = fst ?r) (x # xs) = Some y"
        using neq y(1) by simp
      with y(2) show ?thesis
        unfolding step by simp
    qed
  next
    case False
    let ?r = "best_over (sc, bits, tk) xs"
    from False have step: "best_over (sc, bits, tk) (x # xs) = ?r"
      by simp
    from Cons.prems have neq: "fst ?r \<noteq> sc"
      unfolding step .
    from Cons.IH [OF neq] obtain y where
      y: "find (\<lambda>x. s_score x = fst ?r) xs = Some y"
        "?r = (s_score y, Some (s_bits y), Some (s_tick y))"
      by blast
    have "sc \<le> fst ?r" by (rule best_over_mono)
    with neq False have "s_score x \<noteq> fst ?r" by simp
    then have "find (\<lambda>x. s_score x = fst ?r) (x # xs) = Some y"
      using y(1) by simp
    with y(2) show ?thesis
      unfolding step by simp
  qed
qed

lemma best_over_tick_irrelevant:
  "fst (best_over (sc, bits, tk) xs) = fst (best_over (sc, bits, tk') xs)
   \<and> fst (snd (best_over (sc, bits, tk) xs)) = fst (snd (best_over (sc, bits, tk') xs))"
proof (induction xs arbitrary: sc bits tk tk')
  case Nil
  show ?case by simp
next
  case (Cons x xs)
  show ?case
  proof (cases "sc < s_score x")
    case True
    then show ?thesis by simp
  next
    case False
    then show ?thesis using Cons.IH [of sc bits tk tk'] by simp
  qed
qed

lemma main_ingest_best:
  assumes "main_ingest n width edges st tick sidx p = Inr (st', out)"
  shows "(best_score st', best_bits st', best_tick st') =
     best_over (best_score st, best_bits st, best_tick st) (case out of None \<Rightarrow> [] | Some x \<Rightarrow> [x])"
  using assms
  by (auto simp: main_ingest_def Let_def split: if_splits sum.splits)

lemma main_run_best:
  "main_run n width edges st rs = Inr (st', outs) \<Longrightarrow>
     (best_score st', best_bits st', best_tick st') =
       best_over (best_score st, best_bits st, best_tick st) outs"
proof (induction rs arbitrary: st st' outs)
  case Nil
  then show ?case by simp
next
  case (Cons r rs)
  obtain tick sidx p where r: "r = (tick, sidx, p)" by (cases r)
  from Cons.prems obtain st1 out outs1 where
    s: "main_ingest n width edges st tick sidx p = Inr (st1, out)"
    and t: "main_run n width edges st1 rs = Inr (st', outs1)"
    and o: "outs = (case out of None \<Rightarrow> [] | Some x \<Rightarrow> [x]) @ outs1"
    by (auto simp: r split: sum.splits)
  show ?case
    unfolding o best_over_append
    using main_ingest_best [OF s] Cons.IH [OF t] by simp
qed

lemma update_ingest_best:
  "\<exists>out. self_all_samples (update_ingest g st tick sidx bmask) = self_all_samples st @ out
     \<and> self_best_score (update_ingest g st tick sidx bmask) =
         fst (best_over (self_best_score st, self_best_bits st, None) out)
     \<and> self_best_bits (update_ingest g st tick sidx bmask) =
         fst (snd (best_over (self_best_score st, self_best_bits st, None) out))"
proof (cases "has_all (units_of (store tick sidx bmask (self_tick_buffer st)) tick) NUM_SLAVES")
  case False
  then have "self_all_samples (update_ingest g st tick sidx bmask) = self_all_samples st @ []"
    "self_best_score (update_ingest g st tick sidx bmask) = self_best_score st"
    "self_best_bits (update_ingest g st tick sidx bmask) = self_best_bits st"
    by (simp_all add: update_ingest_eq Let_def)
  then show ?thesis
    by (intro exI [of _ "[]"]) simp
next
  case True
  let ?buf = "store tick sidx bmask (self_tick_buffer st)"
  let ?bits = "ordered_bits (\<lambda>s. the (map_of (units_of ?buf tick) s)) NUM_SLAVES 4"
  let ?x = "\<lparr>s_tick = tick, s_score = cut_weight ?bits EDGES, s_bits = ?bits\<rparr>"
  from True have "self_all_samples (update_ingest g st tick sidx bmask) = self_all_samples st @ [?x]"
    "self_best_score (update_ingest g st tick sidx bmask) =
       fst (best_over (self_best_score st, self_best_bits st, None) [?x])"
    "self_best_bits (update_ingest g st tick sidx bmask) =
       fst (snd (best_over (self_best_score st, self_best_bits st, None) [?x]))"
    by (simp_all add: update_ingest_eq Let_def record_sample_def)
  then show ?thesis
    by (intro exI [of _ "[?x]"]) simp
qed

lemma update_run_best:
  "\<exists>outs. self_all_samples (update_run g st rs) = self_all_samples st @ outs
     \<and> self_best_score (update_run g st rs) =
         fst (best_over (self_best_score st, self_best_bits st, None) outs)
     \<and> self_best_bits (update_run g st rs) =
         fst (snd (best_over (self_best_score st, self_best_bits st, None) outs))"
proof (induction rs arbitrary: st)
  case Nil
  show ?case by (intro exI [of _ "[]"]) simp
next
  case (Cons r rs)
  obtain tick sidx bmask where r: "r = (tick, sidx, bmask)" by (cases r)
  let ?st1 = "update_ingest g st tick sidx bmask"
  obtain out where o: "self_all_samples ?st1 = self_all_samples st @ out"
    "self_best_score ?st1 = fst (best_over (self_best_score st, self_best_bits st, None) out)"
    "self_best_bits ?st1 = fst (snd (best_over (self_best_score st, self_best_bits st, None) out))"
    using update_ingest_best by blast
  obtain outs where os: "self_all_samples (update_run g ?st1 rs) = self_all_samples ?st1 @ outs"
    "self_best_score (update_run g ?st1 rs) =
       fst (best_over (self_best_score ?st1, self_best_bits ?st1, None) outs)"
    "self_best_bits (update_run g ?st1 rs) =
       fst (snd (best_over (self_best_score ?st1, self_best_bits ?st1, None) outs))"
    using Cons.IH [of ?st1] by blast
  obtain tk where mid: "best_over (self_best_score st, self_best_bits st, None) out =
      (self_best_score ?st1, self_best_bits ?st1, tk)"
    using o(2,3) by (cases "best_over (self_best_score st, self_best_bits st, None) out") simp
  have "best_over (self_best_score st, self_best_bits st, None) (out @ outs) =
      best_over (self_best_score ?st1, self_best_bits ?st1, tk) outs"
    by (simp add: best_over_append mid)
  with best_over_tick_irrelevant [of "self_best_score ?st1" "self_best_bits ?st1" tk outs None]
  have "self_best_score (update_run g ?st1 rs) =
      fst (best_over (self_best_score st, self_best_bits st, None) (out @ outs))"
    "self_best_bits (update_run g ?st1 rs) =
      fst (snd (best_over (self_best_score st, self_best_bits st, None) (out @ outs)))"
    using os(2,3) by simp_all
  moreover have "self_all_samples (update_run g ?st1 rs) = self_all_samples st @ (out @ outs)"
    using o(1) os(1) by simp
  ultimately show ?case
    unfolding r by (intro exI [of _ "out @ outs"]) simp
qed

lemma best_over_summary:
  assumes "best_over (sc, bits, tk) xs = (sc', bits', tk')"
  shows "sc' = Max (insert sc (s_score ` set xs))"
    and "sc \<le> sc'"
    and "sc' = sc \<longrightarrow> bits' = bits \<and> tk' = tk"
    and "sc' \<noteq> sc \<longrightarrow> (\<exists>x. find (\<lambda>x. s_score x = sc') xs = Some x
            \<and> bits' = Some (s_bits x) \<and> tk' = Some (s_tick x))"
proof -
  have f: "fst (best_over (sc, bits, tk) xs) = sc'"
    by (simp add: assms)
  show "sc' = Max (insert sc (s_score ` set xs))"
    using best_over_score [of sc bits tk xs] f by simp
  show "sc \<le> sc'"
    using best_over_mono [of sc bits tk xs] f by simp
  show "sc' = sc \<longrightarrow> bits' = bits \<and> tk' = tk"
    using best_over_unchanged [of sc bits tk xs] f assms by simp
  show "sc' \<noteq> sc \<longrightarrow> (\<exists>x. find (\<lambda>x. s_score x = sc') xs = Some x
            \<and> bits' = Some (s_bits x) \<and> tk' = Some (s_tick x))"
    using best_over_earliest [of sc bits tk xs] f assms by auto
qed

text \<open>
  C2 (as amended). The best result starts with no bits at a finite floor: \<open>-1e18\<close> in
  the console client, \<open>0\<close> in the dashboard. After any run of records its score is the
  maximum of the score it had before the run and of the scores of all samples scored in
  the run, so it never decreases; when no sample exceeded the score it had, bits and
  tick are unchanged; otherwise they are those of the first sample of the run that has
  the final score (a later sample with an equal score does not replace it).
\<close>

theorem best_is_running_maximum:
  fixes st :: main_state and ds :: dashboard
  shows "best_score main_init = - (10 ^ 18) \<and> best_bits main_init = None
    \<and> self_best_score dashboard_init = 0 \<and> self_best_bits dashboard_init = None
    \<and> (\<forall>st' outs. main_run n width edges st rs = Inr (st', outs) \<longrightarrow>
          best_score st' = Max (insert (best_score st) (s_score ` set outs))
          \<and> best_score st \<le> best_score st'
          \<and> (best_score st' = best_score st \<longrightarrow>
                best_bits st' = best_bits st \<and> best_tick st' = best_tick st)
          \<and> (best_score st' \<noteq> best_score st \<longrightarrow>
                (\<exists>x. find (\<lambda>x. s_score x = best_score st') outs = Some x
                  \<and> best_bits st' = Some (s_bits x) \<and> best_tick st' = Some (s_tick x))))
    \<and> (\<exists>outs. self_all_samples (update_run g ds rs') = self_all_samples ds @ outs
          \<and> self_best_score (update_run g ds rs') =
                Max (insert (self_best_score ds) (s_score ` set outs))
          \<and> self_best_score ds \<le> self_best_score (update_run g ds rs')
          \<and> (self_best_score (update_run g ds rs') = self_best_score ds \<longrightarrow>
                self_best_bits (update_run g ds rs') = self_best_bits ds)
          \<and> (self_best_score (update_run g ds rs') \<noteq> self_best_score ds \<longrightarrow>
                (\<exists>x. find (\<lambda>x. s_score x = self_best_score (update_run g ds rs')) outs = Some x
                  \<and> self_best_bits (update_run g ds rs') = Some (s_bits x))))"
proof -
  have i: "best_score main_init = - (10 ^ 18) \<and> best_bits main_init = None
    \<and> self_best_score dashboard_init = 0 \<and> self_best_bits dashboard_init = None"
    by (simp add: main_init_def dashboard_init_def)
  have a: "best_score st' = Max (insert (best_score st) (s_score ` set outs))
          \<and> best_score st \<le> best_score st'
          \<and> (best_score st' = best_score st \<longrightarrow>
                best_bits st' = best_bits st \<and> best_tick st' = best_tick st)
          \<and> (best_score st' \<noteq> best_score st \<longrightarrow>
                (\<exists>x. find (\<lambda>x. s_score x = best_score st') outs = Some x
                  \<and> best_bits st' = Some (s_bits x) \<and> best_tick st' = Some (s_tick x)))"
    if "main_run n width edges st rs = Inr (st', outs)" for st' outs
    using best_over_summary [OF main_run_best [OF that, symmetric]] by blast
  let ?ds' = "update_run g ds rs'"
  obtain outs where os: "self_all_samples ?ds' = self_all_samples ds @ outs"
    "self_best_score ?ds' = fst (best_over (self_best_score ds, self_best_bits ds, None) outs)"
    "self_best_bits ?ds' = fst (snd (best_over (self_best_score ds, self_best_bits ds, None) outs))"
    using update_run_best by blast
  obtain tk where "best_over (self_best_score ds, self_best_bits ds, None) outs =
      (self_best_score ?ds', self_best_bits ?ds', tk)"
    using os(2,3) by (cases "best_over (self_best_score ds, self_best_bits ds, None) outs") simp
  note b = best_over_summary [OF this]
  have "self_all_samples ?ds' = self_all_samples ds @ outs
          \<and> self_best_score ?ds' = Max (insert (self_best_score ds) (s_score ` set outs))
          \<and> self_best_score ds \<le> self_best_score ?ds'
          \<and> (self_best_score ?ds' = self_best_score ds \<longrightarrow> self_best_bits ?ds' = self_best_bits ds)
          \<and> (self_best_score ?ds' \<noteq> self_best_score ds \<longrightarrow>
                (\<exists>x. find (\<lambda>x. s_score x = self_best_score ?ds') outs = Some x
                  \<and> self_best_bits ?ds' = Some (s_bits x)))"
    using os(1) b by blast
  then have c: "\<exists>outs. self_all_samples ?ds' = self_all_samples ds @ outs
          \<and> self_best_score ?ds' = Max (insert (self_best_score ds) (s_score ` set outs))
          \<and> self_best_score ds \<le> self_best_score ?ds'
          \<and> (self_best_score ?ds' = self_best_score ds \<longrightarrow> self_best_bits ?ds' = self_best_bits ds)
          \<and> (self_best_score ?ds' \<noteq> self_best_score ds \<longrightarrow>
                (\<exists>x. find (\<lambda>x. s_score x = self_best_score ?ds') outs = Some x
                  \<and> self_best_bits ?ds' = Some (s_bits x)))"
    by (rule exI)
  from i a c show ?thesis by blast
qed

theorem best_is_running_maximum_witness:
  "main_run 4 4 (build_edges 16) main_init
      [(7, 0, (5, 0, 0, 0)), (7, 2, (1, 0, 0, 0)), (7, 1, (2, 0, 0, 0)), (7, 3, (15, 0, 0, 0)),
       (8, 3, (15, 0, 0, 0)), (8, 2, (1, 0, 0, 0)), (8, 1, (2, 0, 0, 0)), (8, 0, (5, 0, 0, 0))]
     = Inr (\<lparr>best_score = 8,
              best_bits = Some [1, 0, 1, 0, 0, 1, 0, 0, 1, 0, 0, 0, 1, 1, 1, 1],
              best_tick = Some 7,
              tick_buffer =
                [(7, [(0, (5, 0, 0, 0)), (2, (1, 0, 0, 0)), (1, (2, 0, 0, 0)), (3, (15, 0, 0, 0))]),
                 (8, [(3, (15, 0, 0, 0)), (2, (1, 0, 0, 0)), (1, (2, 0, 0, 0)), (0, (5, 0, 0, 0))])]\<rparr>,
            [\<lparr>s_tick = 7, s_score = 8, s_bits = [1, 0, 1, 0, 0, 1, 0, 0, 1, 0, 0, 0, 1, 1, 1, 1]\<rparr>,
             \<lparr>s_tick = 8, s_score = 8, s_bits = [1, 0, 1, 0, 0, 1, 0, 0, 1, 0, 0, 0, 1, 1, 1, 1]\<rparr>])
   \<and> (8 :: real) = Max (insert (best_score main_init)
         (s_score ` set [\<lparr>s_tick = 7, s_score = 8, s_bits = [1, 0, 1, 0, 0, 1, 0, 0, 1, 0, 0, 0, 1, 1, 1, 1]\<rparr>,
             \<lparr>s_tick = 8, s_score = 8, s_bits = [1, 0, 1, 0, 0, 1, 0, 0, 1, 0, 0, 0, 1, 1, 1, 1]\<rparr>]))
   \<and> best_score main_init \<le> 8
   \<and> find (\<lambda>x. s_score x = 8)
         [\<lparr>s_tick = 7, s_score = 8, s_bits = [1, 0, 1, 0, 0, 1, 0, 0, 1, 0, 0, 0, 1, 1, 1, 1]\<rparr>,
          \<lparr>s_tick = 8, s_score = 8, s_bits = [1, 0, 1, 0, 0, 1, 0, 0, 1, 0, 0, 0, 1, 1, 1, 1]\<rparr>]
       = Some \<lparr>s_tick = 7, s_score = 8, s_bits = [1, 0, 1, 0, 0, 1, 0, 0, 1, 0, 0, 0, 1, 1, 1, 1]\<rparr>
   \<and> self_best_score (update_run
        \<lparr>k_val = 300, t_val = 1 / 5, anneal_active = False, t_start = 7 / 20, t_end = 1 / 20\<rparr>
        dashboard_init [(7, 0, 5), (7, 2, 1), (7, 1, 2), (7, 3, 15)]) = 8
   \<and> self_best_score (update_run
        \<lparr>k_val = 300, t_val = 1 / 5, anneal_active = False, t_start = 7 / 20, t_end = 1 / 20\<rparr>
        dashboard_init [(7, 0, 5), (7, 2, 1), (7, 1, 2), (7, 3, 15)])
      = Max (insert (self_best_score dashboard_init) (s_score ` set (self_all_samples (update_run
        \<lparr>k_val = 300, t_val = 1 / 5, anneal_active = False, t_start = 7 / 20, t_end = 1 / 20\<rparr>
        dashboard_init [(7, 0, 5), (7, 2, 1), (7, 1, 2), (7, 3, 15)]))))
   \<and> self_best_bits (update_run
        \<lparr>k_val = 300, t_val = 1 / 5, anneal_active = False, t_start = 7 / 20, t_end = 1 / 20\<rparr>
        dashboard_init [(7, 0, 5), (7, 2, 1), (7, 1, 2), (7, 3, 15)])
      = Some [1, 0, 1, 0, 0, 1, 0, 0, 1, 0, 0, 0, 1, 1, 1, 1]"
proof -
  let ?g = "\<lparr>k_val = 300, t_val = 1 / 5, anneal_active = False, t_start = 7 / 20, t_end = 1 / 20\<rparr>"
  let ?D' = "update_run ?g dashboard_init [(7, 0, 5), (7, 2, 1), (7, 1, 2), (7, 3, 15)]"
  have d0: "self_all_samples dashboard_init = []"
    by (simp add: dashboard_init_def)
  have d1: "self_best_score ?D' = 8"
    by code_simp
  have d2: "self_best_bits ?D' = Some [1, 0, 1, 0, 0, 1, 0, 0, 1, 0, 0, 0, 1, 1, 1, 1]"
    by code_simp
  note u = best_is_running_maximum [where ds = dashboard_init and g = ?g
      and rs' = "[(7, 0, 5), (7, 2, 1), (7, 1, 2), (7, 3, 15)]"]
  from u obtain douts where "self_all_samples ?D' = self_all_samples dashboard_init @ douts"
    and "self_best_score ?D' = Max (insert (self_best_score dashboard_init) (s_score ` set douts))"
    by blast
  then have d3: "self_best_score ?D' =
      Max (insert (self_best_score dashboard_init) (s_score ` set (self_all_samples ?D')))"
    by (simp add: d0)
  let ?rs = "[(7, 0, (5, 0, 0, 0)), (7, 2, (1, 0, 0, 0)), (7, 1, (2, 0, 0, 0)), (7, 3, (15, 0, 0, 0)),
       (8, 3, (15, 0, 0, 0)), (8, 2, (1, 0, 0, 0)), (8, 1, (2, 0, 0, 0)), (8, 0, (5, 0, 0, 0))]
       :: (int \<times> int \<times> payload) list"
  let ?bits = "[1, 0, 1, 0, 0, 1, 0, 0, 1, 0, 0, 0, 1, 1, 1, 1] :: int list"
  let ?st' = "\<lparr>best_score = 8, best_bits = Some ?bits, best_tick = Some 7,
      tick_buffer =
        [(7, [(0, (5, 0, 0, 0)), (2, (1, 0, 0, 0)), (1, (2, 0, 0, 0)), (3, (15, 0, 0, 0))]),
         (8, [(3, (15, 0, 0, 0)), (2, (1, 0, 0, 0)), (1, (2, 0, 0, 0)), (0, (5, 0, 0, 0))])]\<rparr>"
  let ?outs = "[\<lparr>s_tick = 7, s_score = 8, s_bits = ?bits\<rparr>, \<lparr>s_tick = 8, s_score = 8, s_bits = ?bits\<rparr>]"
  have run: "main_run 4 4 (build_edges 16) main_init ?rs = Inr (?st', ?outs)"
    by code_simp
  note t = best_is_running_maximum [where st = main_init and rs = ?rs and n = 4 and width = 4
      and edges = "build_edges 16"]
  from t run have m: "best_score ?st' = Max (insert (best_score main_init) (s_score ` set ?outs))
      \<and> best_score main_init \<le> best_score ?st'"
    by blast
  have f: "find (\<lambda>x. s_score x = 8) ?outs = Some \<lparr>s_tick = 7, s_score = 8, s_bits = ?bits\<rparr>"
    by simp
  from run m f d1 d2 d3 show ?thesis
    by (intro conjI) simp_all
qed

text \<open>
  The claim as it stands fails on both clients. The floors are finite. And in the
  dashboard a first sample with score 0, which is the maximum score seen, is not kept:
  the best bits stay empty.
\<close>

theorem best_floor_is_finite:
  "best_score main_init = - (10 ^ 18)
   \<and> self_best_score dashboard_init = 0
   \<and> self_all_samples (update_run
        \<lparr>k_val = 300, t_val = 1 / 5, anneal_active = False, t_start = 7 / 20, t_end = 1 / 20\<rparr>
        dashboard_init [(7, 0, 0), (7, 1, 0), (7, 2, 0), (7, 3, 0)])
      = [\<lparr>s_tick = 7, s_score = 0, s_bits = [0, 0, 0, 0, 0, 0, 0, 0, 0, 0, 0, 0, 0, 0, 0, 0]\<rparr>]
   \<and> self_best_score (update_run
        \<lparr>k_val = 300, t_val = 1 / 5, anneal_active = False, t_start = 7 / 20, t_end = 1 / 20\<rparr>
        dashboard_init [(7, 0, 0), (7, 1, 0), (7, 2, 0), (7, 3, 0)]) = 0
   \<and> self_best_bits (update_run
        \<lparr>k_val = 300, t_val = 1 / 5, anneal_active = False, t_start = 7 / 20, t_end = 1 / 20\<rparr>
        dashboard_init [(7, 0, 0), (7, 1, 0), (7, 2, 0), (7, 3, 0)]) = None"
  by code_simp

section \<open>Completion of a tick\<close>

lemma length_update_le: "length (AList.update k v al) \<le> Suc (length al)"
  by (induction al) auto

lemma has_all_update: "has_all d n \<Longrightarrow> has_all (AList.update s p d) n"
  by (simp add: has_all_def list_all_iff update_conv')

lemma has_all_keys: "has_all d n \<longleftrightarrow> set (py_range n) \<subseteq> fst ` set d"
proof -
  have "map_of d s \<noteq> None \<longleftrightarrow> s \<in> fst ` set d" for s
    by (simp add: map_of_eq_None_iff)
  then show ?thesis
    unfolding has_all_def list_all_iff by blast
qed

lemma map_of_fold_update:
  "map_of (fold (\<lambda>(s, p). AList.update s p) us d) = map_of d ++ map_of (rev us)"
proof (induction us arbitrary: d)
  case Nil
  show ?case by simp
next
  case (Cons u us)
  obtain s p where u: "u = (s, p)" by (cases u)
  have "map_of (fold (\<lambda>(s, p). AList.update s p) (u # us) d) =
      map_of (AList.update s p d) ++ map_of (rev us)"
    by (simp add: u Cons.IH)
  also have "\<dots> = map_of d ++ map_of (rev (u # us))"
    by (simp add: u update_conv')
  finally show ?case .
qed

lemma keys_fold_update:
  "fst ` set (fold (\<lambda>(s, p). AList.update s p) us d) = fst ` set d \<union> fst ` set us"
proof (induction us arbitrary: d)
  case Nil
  show ?case by simp
next
  case (Cons u us)
  obtain s p where u: "u = (s, p)" by (cases u)
  show ?case
    by (simp add: u Cons.IH dom_update)
qed

lemma map_of_fold_update_fresh:
  assumes "distinct (map fst us)"
  shows "map_of (fold (\<lambda>(s, p). AList.update s p) us []) = map_of us"
proof -
  have "map_of (rev us) = map_of us"
    using assms by (subst map_of_inject_set) (simp_all add: rev_map [symmetric])
  then show ?thesis
    by (simp add: map_of_fold_update)
qed

lemma permutation_facts:
  assumes "mset (map fst us) = mset (py_range n)"
  shows "distinct (map fst us)" and "fst ` set us = set (py_range n)" and "length us = nat n"
proof -
  have d: "distinct (py_range n)"
    by (simp add: py_range_def distinct_map)
  with assms show "distinct (map fst us)"
    by (metis mset_eq_imp_distinct_iff)
  have "set (map fst us) = set (py_range n)"
    using assms by (rule mset_eq_setD)
  then show "fst ` set us = set (py_range n)" by simp
  have "length (map fst us) = length (py_range n)"
    using assms by (rule mset_eq_length)
  then show "length us = nat n" by (simp add: length_py_range)
qed

lemma update_run_append:
  "update_run g st (xs @ ys) = update_run g (update_run g st xs) ys"
proof (induction xs arbitrary: st)
  case Nil
  show ?case by simp
next
  case (Cons x xs)
  obtain t s b where "x = (t, s, b)" by (cases x)
  then show ?case by (simp add: Cons.IH)
qed

lemma update_ingest_incomplete:
  assumes "Suc (length (units_of (self_tick_buffer st) tick)) < 4"
  shows "self_all_samples (update_ingest g st tick sidx bmask) = self_all_samples st"
    and "self_sample_count (update_ingest g st tick sidx bmask) = self_sample_count st"
    and "self_tick_buffer (update_ingest g st tick sidx bmask) = store tick sidx bmask (self_tick_buffer st)"
proof -
  let ?e = "units_of (store tick sidx bmask (self_tick_buffer st)) tick"
  have "length ?e \<le> Suc (length (units_of (self_tick_buffer st) tick))"
    by (simp add: units_of_store_same length_update_le)
  with assms have small: "\<not> NUM_SLAVES \<le> int (length ?e)"
    by (simp add: NUM_SLAVES_def)
  then have no: "\<not> has_all ?e NUM_SLAVES"
    using has_all_length by blast
  show "self_all_samples (update_ingest g st tick sidx bmask) = self_all_samples st"
    and "self_sample_count (update_ingest g st tick sidx bmask) = self_sample_count st"
    and "self_tick_buffer (update_ingest g st tick sidx bmask) = store tick sidx bmask (self_tick_buffer st)"
    using small no by (simp_all add: update_ingest_eq Let_def)
qed

lemma update_run_incomplete:
  assumes "length (units_of (self_tick_buffer st) tick) + length us < 4"
  shows "self_all_samples (update_run g st (records_of tick us)) = self_all_samples st
    \<and> self_sample_count (update_run g st (records_of tick us)) = self_sample_count st
    \<and> units_of (self_tick_buffer (update_run g st (records_of tick us))) tick =
        fold (\<lambda>(s, p). AList.update s p) us (units_of (self_tick_buffer st) tick)"
  using assms
proof (induction us arbitrary: st)
  case Nil
  show ?case by (simp add: records_of_def)
next
  case (Cons u us)
  obtain s b where u: "u = (s, b)" by (cases u)
  let ?st1 = "update_ingest g st tick s b"
  from Cons.prems have small: "Suc (length (units_of (self_tick_buffer st) tick)) < 4"
    by simp
  note step = update_ingest_incomplete [OF small, of g s b]
  have e: "units_of (self_tick_buffer ?st1) tick = AList.update s b (units_of (self_tick_buffer st) tick)"
    by (simp add: step(3) units_of_store_same)
  have "length (units_of (self_tick_buffer ?st1) tick) + length us < 4"
    using Cons.prems length_update_le [of s b "units_of (self_tick_buffer st) tick"]
    by (simp add: e)
  from Cons.IH [OF this] show ?case
    by (simp add: records_of_def u step(1,2) e)
qed

lemma update_ingest_complete:
  assumes "has_all (AList.update sidx bmask (units_of (self_tick_buffer st) tick)) NUM_SLAVES"
  shows "self_all_samples (update_ingest g st tick sidx bmask) =
      self_all_samples st @
        [\<lparr>s_tick = tick,
          s_score = cut_weight (ordered_bits (\<lambda>s. the (map_of
              (AList.update sidx bmask (units_of (self_tick_buffer st) tick)) s)) NUM_SLAVES 4) EDGES,
          s_bits = ordered_bits (\<lambda>s. the (map_of
              (AList.update sidx bmask (units_of (self_tick_buffer st) tick)) s)) NUM_SLAVES 4\<rparr>]"
    and "self_sample_count (update_ingest g st tick sidx bmask) = self_sample_count st + 1"
  using assms
  by (simp_all add: update_ingest_eq Let_def units_of_store_same self_all_samples_record_sample)

lemma in_range_build_edges:
  assumes "1 \<le> n" and "length bits = nat n * nat width"
  shows "in_range bits (build_edges (n * width))"
proof (cases "0 < width")
  case False
  with assms(1) have "n * width \<le> 0"
    by (simp add: mult_le_0_iff)
  then have "py_range (n * width) = []"
    by (simp add: py_range_def)
  then show ?thesis
    by (simp add: build_edges_def make_ring_edges_def in_range_def)
next
  case True
  with assms(1) have pos: "0 < n * width" by simp
  have len: "int (length bits) = n * width"
    using assms True by (simp add: nat_mult_distrib)
  have "0 \<le> i \<and> i < n * width \<and> 0 \<le> (i + 1) mod (n * width) \<and> (i + 1) mod (n * width) < n * width"
    if "i \<in> set (py_range (n * width))" for i
    using that pos by (simp add: set_py_range)
  then show ?thesis
    by (simp add: build_edges_def make_ring_edges_def in_range_def list_all_iff len)
qed

lemma main_run_append:
  "main_run n width edges st (xs @ ys) =
     (case main_run n width edges st xs of
        Inl e \<Rightarrow> Inl e
      | Inr (st1, o1) \<Rightarrow>
          (case main_run n width edges st1 ys of
             Inl e \<Rightarrow> Inl e
           | Inr (st2, o2) \<Rightarrow> Inr (st2, o1 @ o2)))"
proof (induction xs arbitrary: st)
  case Nil
  show ?case by (simp split: sum.splits)
next
  case (Cons x xs)
  obtain t s p where "x = (t, s, p)" by (cases x)
  then show ?case
    by (simp add: Cons.IH split: sum.splits prod.splits)
qed

lemma main_ingest_incomplete:
  assumes "int (Suc (length (units_of (tick_buffer st) tick))) < n"
  shows "main_ingest n width edges st tick sidx p =
     Inr (st\<lparr>tick_buffer := store tick sidx p (tick_buffer st)\<rparr>, None)"
proof -
  let ?e = "units_of (store tick sidx p (tick_buffer st)) tick"
  have "length ?e \<le> Suc (length (units_of (tick_buffer st) tick))"
    by (simp add: units_of_store_same length_update_le)
  with assms have "\<not> n \<le> int (length ?e)"
    by simp
  then show ?thesis
    by (simp add: main_ingest_def Let_def)
qed

lemma main_run_incomplete:
  assumes "int (length (units_of (tick_buffer st) tick) + length us) < n"
  shows "\<exists>buf. main_run n width edges st (records_of tick us) = Inr (st\<lparr>tick_buffer := buf\<rparr>, [])
    \<and> units_of buf tick = fold (\<lambda>(s, p). AList.update s p) us (units_of (tick_buffer st) tick)"
  using assms
proof (induction us arbitrary: st)
  case Nil
  have "st\<lparr>tick_buffer := tick_buffer st\<rparr> = st" by simp
  then show ?case
    by (intro exI [of _ "tick_buffer st"]) (simp add: records_of_def)
next
  case (Cons u us)
  obtain s p where u: "u = (s, p)" by (cases u)
  let ?st1 = "st\<lparr>tick_buffer := store tick s p (tick_buffer st)\<rparr>"
  from Cons.prems have small: "int (Suc (length (units_of (tick_buffer st) tick))) < n"
    by simp
  note step = main_ingest_incomplete [OF small, of width edges s p]
  have e: "units_of (tick_buffer ?st1) tick = AList.update s p (units_of (tick_buffer st) tick)"
    by (simp add: units_of_store_same)
  have "int (length (units_of (tick_buffer ?st1) tick) + length us) < n"
    using Cons.prems length_update_le [of s p "units_of (tick_buffer st) tick"]
    by (simp add: units_of_store_same)
  from Cons.IH [OF this] obtain buf where
    r: "main_run n width edges ?st1 (records_of tick us) = Inr (?st1\<lparr>tick_buffer := buf\<rparr>, [])"
    and b: "units_of buf tick = fold (\<lambda>(s, p). AList.update s p) us (units_of (tick_buffer ?st1) tick)"
    by blast
  have "main_run n width edges st (records_of tick (u # us)) = Inr (st\<lparr>tick_buffer := buf\<rparr>, [])"
    using r by (simp add: records_of_def u step)
  moreover have "units_of buf tick =
      fold (\<lambda>(s, p). AList.update s p) (u # us) (units_of (tick_buffer st) tick)"
    using b by (simp add: units_of_store_same u)
  ultimately show ?case by blast
qed

lemma main_ingest_complete:
  assumes "1 \<le> n"
    and "has_all (AList.update sidx p (units_of (tick_buffer st) tick)) n"
  shows "\<exists>st'. main_ingest n width (build_edges (n * width)) st tick sidx p =
     Inr (st',
       Some \<lparr>s_tick = tick,
         s_score = cut_weight (ordered_bits (\<lambda>s. fst (the (map_of
             (AList.update sidx p (units_of (tick_buffer st) tick)) s))) n width) (build_edges (n * width)),
         s_bits = ordered_bits (\<lambda>s. fst (the (map_of
             (AList.update sidx p (units_of (tick_buffer st) tick)) s))) n width\<rparr>)"
proof -
  let ?e = "AList.update sidx p (units_of (tick_buffer st) tick)"
  let ?bits = "ordered_bits (\<lambda>s. fst (the (map_of ?e s))) n width"
  have e: "units_of (store tick sidx p (tick_buffer st)) tick = ?e"
    by (rule units_of_store_same)
  have len: "n \<le> int (length ?e)"
    using assms(2) by (rule has_all_length)
  have vec: "collect_vec ?e width (py_range n) [] =
      map (\<lambda>s. bits_from_bmask (fst (the (map_of ?e s))) width) (py_range n)"
    using assms(2) by (simp add: collect_vec_all has_all_def)
  have full: "int (length (collect_vec ?e width (py_range n) [])) = n"
    using assms(1) by (simp add: vec length_py_range)
  have "py_range n \<noteq> []"
    using assms(1) by (simp add: py_range_def)
  then have cat: "concatenate (collect_vec ?e width (py_range n) []) = Inr ?bits"
    by (simp add: concatenate_def vec ordered_bits_def)
  have "in_range ?bits (build_edges (n * width))"
    using assms(1) by (rule in_range_build_edges) (simp add: length_ordered_bits)
  then have sc: "maxcut_score ?bits (build_edges (n * width)) = Inr (cut_weight ?bits (build_edges (n * width)))"
    by (simp add: maxcut_score_in_range)
  show ?thesis
    by (simp add: main_ingest_def Let_def e len full cat sc)
qed

lemma records_of_snoc: "records_of tick (us @ [(s, p)]) = records_of tick us @ [(tick, s, p)]"
  by (simp add: records_of_def)

lemma permutation_has_all:
  assumes "mset (map fst us) = mset (py_range n)"
  shows "has_all (fold (\<lambda>(s, p). AList.update s p) us []) n"
    and "map_of (fold (\<lambda>(s, p). AList.update s p) us []) = map_of us"
proof -
  note f = permutation_facts [OF assms]
  show "has_all (fold (\<lambda>(s, p). AList.update s p) us []) n"
    by (simp add: has_all_keys keys_fold_update f(2))
  show "map_of (fold (\<lambda>(s, p). AList.update s p) us []) = map_of us"
    using f(1) by (rule map_of_fold_update_fresh)
qed

lemma update_run_permutation:
  assumes p: "mset (map fst vs) = mset (py_range NUM_SLAVES)"
    and fresh: "units_of (self_tick_buffer ds) tick = []"
  shows "self_all_samples (update_run g ds (records_of tick vs)) =
      self_all_samples ds @
        [\<lparr>s_tick = tick,
          s_score = cut_weight (ordered_bits (\<lambda>s. the (map_of vs s)) NUM_SLAVES 4) EDGES,
          s_bits = ordered_bits (\<lambda>s. the (map_of vs s)) NUM_SLAVES 4\<rparr>]"
    and "self_sample_count (update_run g ds (records_of tick vs)) = self_sample_count ds + 1"
proof -
  have len: "length vs = 4"
    using permutation_facts(3) [OF p] by (simp add: NUM_SLAVES_def)
  then obtain vs' s b where vs: "vs = vs' @ [(s, b)]"
    by (cases vs rule: rev_cases) auto
  with len have len': "length vs' = 3" by simp
  let ?mid = "update_run g ds (records_of tick vs')"
  let ?d = "fold (\<lambda>(s, p). AList.update s p) vs' []"
  have "length (units_of (self_tick_buffer ds) tick) + length vs' < 4"
    by (simp add: fresh len')
  from update_run_incomplete [OF this, of g]
  have mid: "self_all_samples ?mid = self_all_samples ds"
    "self_sample_count ?mid = self_sample_count ds"
    "units_of (self_tick_buffer ?mid) tick = ?d"
    by (simp_all add: fresh)
  have whole: "AList.update s b ?d = fold (\<lambda>(s, p). AList.update s p) vs []"
    by (simp add: vs)
  have all: "has_all (AList.update s b (units_of (self_tick_buffer ?mid) tick)) NUM_SLAVES"
    unfolding mid(3) whole using p by (rule permutation_has_all(1))
  have m: "map_of (AList.update s b (units_of (self_tick_buffer ?mid) tick)) = map_of vs"
    unfolding mid(3) whole using p by (rule permutation_has_all(2))
  have run: "update_run g ds (records_of tick vs) = update_ingest g ?mid tick s b"
    by (simp add: vs records_of_snoc update_run_append)
  show "self_all_samples (update_run g ds (records_of tick vs)) =
      self_all_samples ds @
        [\<lparr>s_tick = tick,
          s_score = cut_weight (ordered_bits (\<lambda>s. the (map_of vs s)) NUM_SLAVES 4) EDGES,
          s_bits = ordered_bits (\<lambda>s. the (map_of vs s)) NUM_SLAVES 4\<rparr>]"
    unfolding run update_ingest_complete(1) [OF all] m mid(1) ..
  show "self_sample_count (update_run g ds (records_of tick vs)) = self_sample_count ds + 1"
    unfolding run update_ingest_complete(2) [OF all] mid(2) ..
qed

lemma main_run_permutation:
  assumes n: "1 \<le> n"
    and p: "mset (map fst us) = mset (py_range n)"
    and fresh: "units_of (tick_buffer st) tick = []"
  shows "\<exists>st'. main_run n width (build_edges (n * width)) st (records_of tick us) =
      Inr (st',
        [\<lparr>s_tick = tick,
          s_score = cut_weight (ordered_bits (\<lambda>s. fst (the (map_of us s))) n width)
            (build_edges (n * width)),
          s_bits = ordered_bits (\<lambda>s. fst (the (map_of us s))) n width\<rparr>])"
proof -
  have len: "length us = nat n"
    using p by (rule permutation_facts(3))
  with n have "us \<noteq> []" by auto
  then obtain us' s q where us: "us = us' @ [(s, q)]"
    by (cases us rule: rev_cases) auto
  with len n have len': "int (length us') < n" by simp
  let ?d = "fold (\<lambda>(s, p). AList.update s p) us' []"
  have "int (length (units_of (tick_buffer st) tick) + length us') < n"
    by (simp add: fresh len')
  from main_run_incomplete [OF this, of width "build_edges (n * width)"]
  obtain buf where
    pre: "main_run n width (build_edges (n * width)) st (records_of tick us') =
      Inr (st\<lparr>tick_buffer := buf\<rparr>, [])"
    and d: "units_of buf tick = ?d"
    by (auto simp: fresh)
  let ?mid = "st\<lparr>tick_buffer := buf\<rparr>"
  have whole: "AList.update s q ?d = fold (\<lambda>(s, p). AList.update s p) us []"
    by (simp add: us)
  have d': "units_of (tick_buffer ?mid) tick = ?d"
    by (simp add: d)
  have all: "has_all (AList.update s q (units_of (tick_buffer ?mid) tick)) n"
    unfolding d' whole using p by (rule permutation_has_all(1))
  have m: "map_of (AList.update s q (units_of (tick_buffer ?mid) tick)) = map_of us"
    unfolding d' whole using p by (rule permutation_has_all(2))
  from main_ingest_complete [OF n all, of width] obtain st' where
    last: "main_ingest n width (build_edges (n * width)) ?mid tick s q =
      Inr (st',
        Some \<lparr>s_tick = tick,
          s_score = cut_weight (ordered_bits (\<lambda>s. fst (the (map_of us s))) n width)
            (build_edges (n * width)),
          s_bits = ordered_bits (\<lambda>s. fst (the (map_of us s))) n width\<rparr>)"
    unfolding m by blast
  have "main_run n width (build_edges (n * width)) st (records_of tick us) =
      Inr (st',
        [\<lparr>s_tick = tick,
          s_score = cut_weight (ordered_bits (\<lambda>s. fst (the (map_of us s))) n width)
            (build_edges (n * width)),
          s_bits = ordered_bits (\<lambda>s. fst (the (map_of us s))) n width\<rparr>])"
    by (simp add: us records_of_snoc main_run_append pre last)
  then show ?thesis ..
qed

text \<open>
  C1 (as amended). For a tick of which no unit is recorded, the records of the units
  \<open>0..n-1\<close> arriving one after the other in any order yield exactly one scored sample, at
  the last of them, with the units' bits in index order (console client with
  \<open>n \<ge> 1\<close> units and the ring graph of \<open>main\<close>; dashboard with its 4 units). The
  completion is not remembered: while a completed tick is in the buffer, every further
  record for it is stored over the old value and the tick is scored and recorded again.
\<close>

theorem tick_completion:
  fixes st :: main_state and ds :: dashboard
    and us :: "(int \<times> payload) list" and vs :: "(int \<times> int) list"
  shows
    "(1 \<le> n \<and> mset (map fst us) = mset (py_range n) \<and> units_of (tick_buffer st) tick = [] \<longrightarrow>
        (\<exists>st'. main_run n width (build_edges (n * width)) st (records_of tick us) =
           Inr (st',
             [\<lparr>s_tick = tick,
               s_score = cut_weight (ordered_bits (\<lambda>s. fst (the (map_of us s))) n width)
                 (build_edges (n * width)),
               s_bits = ordered_bits (\<lambda>s. fst (the (map_of us s))) n width\<rparr>])))
   \<and> (mset (map fst vs) = mset (py_range NUM_SLAVES) \<and> units_of (self_tick_buffer ds) tick = [] \<longrightarrow>
        self_all_samples (update_run g ds (records_of tick vs)) =
          self_all_samples ds @
            [\<lparr>s_tick = tick,
              s_score = cut_weight (ordered_bits (\<lambda>s. the (map_of vs s)) NUM_SLAVES 4) EDGES,
              s_bits = ordered_bits (\<lambda>s. the (map_of vs s)) NUM_SLAVES 4\<rparr>]
        \<and> self_sample_count (update_run g ds (records_of tick vs)) = self_sample_count ds + 1)
   \<and> (1 \<le> n \<and> has_all (units_of (tick_buffer st) tick) n \<longrightarrow>
        (\<exists>st'. main_ingest n width (build_edges (n * width)) st tick sidx p =
           Inr (st',
             Some \<lparr>s_tick = tick,
               s_score = cut_weight (ordered_bits (\<lambda>s. fst (the (map_of
                   (AList.update sidx p (units_of (tick_buffer st) tick)) s))) n width)
                 (build_edges (n * width)),
               s_bits = ordered_bits (\<lambda>s. fst (the (map_of
                   (AList.update sidx p (units_of (tick_buffer st) tick)) s))) n width\<rparr>)))
   \<and> (has_all (units_of (self_tick_buffer ds) tick) NUM_SLAVES \<longrightarrow>
        self_all_samples (update_ingest g ds tick sidx bmask) =
          self_all_samples ds @
            [\<lparr>s_tick = tick,
              s_score = cut_weight (ordered_bits (\<lambda>s. the (map_of
                  (AList.update sidx bmask (units_of (self_tick_buffer ds) tick)) s)) NUM_SLAVES 4) EDGES,
              s_bits = ordered_bits (\<lambda>s. the (map_of
                  (AList.update sidx bmask (units_of (self_tick_buffer ds) tick)) s)) NUM_SLAVES 4\<rparr>]
        \<and> self_sample_count (update_ingest g ds tick sidx bmask) = self_sample_count ds + 1)"
proof (intro conjI impI)
  assume "1 \<le> n \<and> mset (map fst us) = mset (py_range n) \<and> units_of (tick_buffer st) tick = []"
  then show "\<exists>st'. main_run n width (build_edges (n * width)) st (records_of tick us) =
       Inr (st',
         [\<lparr>s_tick = tick,
           s_score = cut_weight (ordered_bits (\<lambda>s. fst (the (map_of us s))) n width)
             (build_edges (n * width)),
           s_bits = ordered_bits (\<lambda>s. fst (the (map_of us s))) n width\<rparr>])"
    using main_run_permutation [of n us st tick width] by blast
next
  assume a: "mset (map fst vs) = mset (py_range NUM_SLAVES) \<and> units_of (self_tick_buffer ds) tick = []"
  then have p: "mset (map fst vs) = mset (py_range NUM_SLAVES)"
    and f: "units_of (self_tick_buffer ds) tick = []"
    by simp_all
  show "self_all_samples (update_run g ds (records_of tick vs)) =
      self_all_samples ds @
        [\<lparr>s_tick = tick,
          s_score = cut_weight (ordered_bits (\<lambda>s. the (map_of vs s)) NUM_SLAVES 4) EDGES,
          s_bits = ordered_bits (\<lambda>s. the (map_of vs s)) NUM_SLAVES 4\<rparr>]"
    using p f by (rule update_run_permutation(1))
  show "self_sample_count (update_run g ds (records_of tick vs)) = self_sample_count ds + 1"
    using p f by (rule update_run_permutation(2))
next
  assume "1 \<le> n \<and> has_all (units_of (tick_buffer st) tick) n"
  then have n: "1 \<le> n" and "has_all (units_of (tick_buffer st) tick) n"
    by simp_all
  then have "has_all (AList.update sidx p (units_of (tick_buffer st) tick)) n"
    by (simp add: has_all_update)
  with n show "\<exists>st'. main_ingest n width (build_edges (n * width)) st tick sidx p =
       Inr (st',
         Some \<lparr>s_tick = tick,
           s_score = cut_weight (ordered_bits (\<lambda>s. fst (the (map_of
               (AList.update sidx p (units_of (tick_buffer st) tick)) s))) n width)
             (build_edges (n * width)),
           s_bits = ordered_bits (\<lambda>s. fst (the (map_of
               (AList.update sidx p (units_of (tick_buffer st) tick)) s))) n width\<rparr>)"
    by (rule main_ingest_complete)
next
  assume "has_all (units_of (self_tick_buffer ds) tick) NUM_SLAVES"
  then have h: "has_all (AList.update sidx bmask (units_of (self_tick_buffer ds) tick)) NUM_SLAVES"
    by (rule has_all_update)
  show "self_all_samples (update_ingest g ds tick sidx bmask) =
      self_all_samples ds @
        [\<lparr>s_tick = tick,
          s_score = cut_weight (ordered_bits (\<lambda>s. the (map_of
              (AList.update sidx bmask (units_of (self_tick_buffer ds) tick)) s)) NUM_SLAVES 4) EDGES,
          s_bits = ordered_bits (\<lambda>s. the (map_of
              (AList.update sidx bmask (units_of (self_tick_buffer ds) tick)) s)) NUM_SLAVES 4\<rparr>]"
    using h by (rule update_ingest_complete(1))
  show "self_sample_count (update_ingest g ds tick sidx bmask) = self_sample_count ds + 1"
    using h by (rule update_ingest_complete(2))
qed

text \<open>
  The claim as it stands fails on both clients: after the four units of tick 7, a fifth
  record for unit 0 of tick 7 is not ignored. The console client scores tick 7 a second
  time, and the dashboard records a second sample for it and counts it.
\<close>

theorem duplicate_record_scores_again:
  "main_run 4 4 (build_edges 16) main_init
      [(7, 0, (5, 0, 0, 0)), (7, 2, (1, 0, 0, 0)), (7, 1, (2, 0, 0, 0)), (7, 3, (15, 0, 0, 0)),
       (7, 0, (0, 0, 0, 0))]
     = Inr (\<lparr>best_score = 8,
              best_bits = Some [1, 0, 1, 0, 0, 1, 0, 0, 1, 0, 0, 0, 1, 1, 1, 1],
              best_tick = Some 7,
              tick_buffer =
                [(7, [(0, (0, 0, 0, 0)), (2, (1, 0, 0, 0)), (1, (2, 0, 0, 0)), (3, (15, 0, 0, 0))])]\<rparr>,
            [\<lparr>s_tick = 7, s_score = 8, s_bits = [1, 0, 1, 0, 0, 1, 0, 0, 1, 0, 0, 0, 1, 1, 1, 1]\<rparr>,
             \<lparr>s_tick = 7, s_score = 6, s_bits = [0, 0, 0, 0, 0, 1, 0, 0, 1, 0, 0, 0, 1, 1, 1, 1]\<rparr>])
   \<and> self_all_samples (update_run
        \<lparr>k_val = 300, t_val = 1 / 5, anneal_active = False, t_start = 7 / 20, t_end = 1 / 20\<rparr>
        dashboard_init [(7, 0, 5), (7, 2, 1), (7, 1, 2), (7, 3, 15), (7, 0, 0)])
      = [\<lparr>s_tick = 7, s_score = 8, s_bits = [1, 0, 1, 0, 0, 1, 0, 0, 1, 0, 0, 0, 1, 1, 1, 1]\<rparr>,
         \<lparr>s_tick = 7, s_score = 6, s_bits = [0, 0, 0, 0, 0, 1, 0, 0, 1, 0, 0, 0, 1, 1, 1, 1]\<rparr>]
   \<and> self_sample_count (update_run
        \<lparr>k_val = 300, t_val = 1 / 5, anneal_active = False, t_start = 7 / 20, t_end = 1 / 20\<rparr>
        dashboard_init [(7, 0, 5), (7, 2, 1), (7, 1, 2), (7, 3, 15), (7, 0, 0)]) = 2"
  by code_simp

theorem tick_completion_witness:
  "(1 :: int) \<le> 4
   \<and> mset (map fst ([(2, (1, 0, 0, 0)), (0, (5, 0, 0, 0)), (3, (15, 0, 0, 0)), (1, (2, 0, 0, 0))] :: (int \<times> payload) list)) = mset (py_range 4)
   \<and> units_of (tick_buffer main_init) 7 = []
   \<and> (\<exists>st'. main_run 4 4 (build_edges (4 * 4)) main_init (records_of 7 ([(2, (1, 0, 0, 0)), (0, (5, 0, 0, 0)), (3, (15, 0, 0, 0)), (1, (2, 0, 0, 0))] :: (int \<times> payload) list)) =
           Inr (st',
             [\<lparr>s_tick = 7,
               s_score = cut_weight (ordered_bits (\<lambda>s. fst (the (map_of ([(2, (1, 0, 0, 0)), (0, (5, 0, 0, 0)), (3, (15, 0, 0, 0)), (1, (2, 0, 0, 0))] :: (int \<times> payload) list) s))) 4 4)
                 (build_edges (4 * 4)),
               s_bits = ordered_bits (\<lambda>s. fst (the (map_of ([(2, (1, 0, 0, 0)), (0, (5, 0, 0, 0)), (3, (15, 0, 0, 0)), (1, (2, 0, 0, 0))] :: (int \<times> payload) list) s))) 4 4\<rparr>]))
   \<and> mset (map fst ([(2, 1), (0, 5), (3, 15), (1, 2)] :: (int \<times> int) list)) = mset (py_range NUM_SLAVES)
   \<and> units_of (self_tick_buffer dashboard_init) 7 = []
   \<and> self_all_samples (update_run \<lparr>k_val = 300, t_val = 1 / 5, anneal_active = False, t_start = 7 / 20, t_end = 1 / 20\<rparr> dashboard_init (records_of 7 ([(2, 1), (0, 5), (3, 15), (1, 2)] :: (int \<times> int) list))) =
          self_all_samples dashboard_init @
            [\<lparr>s_tick = 7,
              s_score = cut_weight (ordered_bits (\<lambda>s. the (map_of ([(2, 1), (0, 5), (3, 15), (1, 2)] :: (int \<times> int) list) s)) NUM_SLAVES 4) EDGES,
              s_bits = ordered_bits (\<lambda>s. the (map_of ([(2, 1), (0, 5), (3, 15), (1, 2)] :: (int \<times> int) list) s)) NUM_SLAVES 4\<rparr>]
   \<and> self_sample_count (update_run \<lparr>k_val = 300, t_val = 1 / 5, anneal_active = False, t_start = 7 / 20, t_end = 1 / 20\<rparr> dashboard_init (records_of 7 ([(2, 1), (0, 5), (3, 15), (1, 2)] :: (int \<times> int) list))) = self_sample_count dashboard_init + 1
   \<and> has_all (units_of (tick_buffer (main_init\<lparr>tick_buffer := [(7, ([(2, (1, 0, 0, 0)), (0, (5, 0, 0, 0)), (3, (15, 0, 0, 0)), (1, (2, 0, 0, 0))] :: (int \<times> payload) list))]\<rparr>)) 7) 4
   \<and> (\<exists>st'. main_ingest 4 4 (build_edges (4 * 4)) (main_init\<lparr>tick_buffer := [(7, ([(2, (1, 0, 0, 0)), (0, (5, 0, 0, 0)), (3, (15, 0, 0, 0)), (1, (2, 0, 0, 0))] :: (int \<times> payload) list))]\<rparr>) 7 0 (0, 0, 0, 0) =
           Inr (st',
             Some \<lparr>s_tick = 7,
               s_score = cut_weight (ordered_bits (\<lambda>s. fst (the (map_of
                   (AList.update 0 (0, 0, 0, 0) (units_of (tick_buffer (main_init\<lparr>tick_buffer := [(7, ([(2, (1, 0, 0, 0)), (0, (5, 0, 0, 0)), (3, (15, 0, 0, 0)), (1, (2, 0, 0, 0))] :: (int \<times> payload) list))]\<rparr>)) 7)) s))) 4 4)
                 (build_edges (4 * 4)),
               s_bits = ordered_bits (\<lambda>s. fst (the (map_of
                   (AList.update 0 (0, 0, 0, 0) (units_of (tick_buffer (main_init\<lparr>tick_buffer := [(7, ([(2, (1, 0, 0, 0)), (0, (5, 0, 0, 0)), (3, (15, 0, 0, 0)), (1, (2, 0, 0, 0))] :: (int \<times> payload) list))]\<rparr>)) 7)) s))) 4 4\<rparr>))
   \<and> has_all (units_of (self_tick_buffer (dashboard_init\<lparr>self_tick_buffer := [(7, ([(2, 1), (0, 5), (3, 15), (1, 2)] :: (int \<times> int) list))]\<rparr>)) 7) NUM_SLAVES
   \<and> self_all_samples (update_ingest \<lparr>k_val = 300, t_val = 1 / 5, anneal_active = False, t_start = 7 / 20, t_end = 1 / 20\<rparr> (dashboard_init\<lparr>self_tick_buffer := [(7, ([(2, 1), (0, 5), (3, 15), (1, 2)] :: (int \<times> int) list))]\<rparr>) 7 0 0) =
          self_all_samples (dashboard_init\<lparr>self_tick_buffer := [(7, ([(2, 1), (0, 5), (3, 15), (1, 2)] :: (int \<times> int) list))]\<rparr>) @
            [\<lparr>s_tick = 7,
              s_score = cut_weight (ordered_bits (\<lambda>s. the (map_of
                  (AList.update 0 0 (units_of (self_tick_buffer (dashboard_init\<lparr>self_tick_buffer := [(7, ([(2, 1), (0, 5), (3, 15), (1, 2)] :: (int \<times> int) list))]\<rparr>)) 7)) s)) NUM_SLAVES 4) EDGES,
              s_bits = ordered_bits (\<lambda>s. the (map_of
                  (AList.update 0 0 (units_of (self_tick_buffer (dashboard_init\<lparr>self_tick_buffer := [(7, ([(2, 1), (0, 5), (3, 15), (1, 2)] :: (int \<times> int) list))]\<rparr>)) 7)) s)) NUM_SLAVES 4\<rparr>]
   \<and> self_sample_count (update_ingest \<lparr>k_val = 300, t_val = 1 / 5, anneal_active = False, t_start = 7 / 20, t_end = 1 / 20\<rparr> (dashboard_init\<lparr>self_tick_buffer := [(7, ([(2, 1), (0, 5), (3, 15), (1, 2)] :: (int \<times> int) list))]\<rparr>) 7 0 0) = self_sample_count (dashboard_init\<lparr>self_tick_buffer := [(7, ([(2, 1), (0, 5), (3, 15), (1, 2)] :: (int \<times> int) list))]\<rparr>) + 1
   \<and> ordered_bits (\<lambda>s. the (map_of ([(2, 1), (0, 5), (3, 15), (1, 2)] :: (int \<times> int) list) s)) NUM_SLAVES 4
      = [1, 0, 1, 0, 0, 1, 0, 0, 1, 0, 0, 0, 1, 1, 1, 1]"
proof -
  have one: "(1 :: int) \<le> 4" by simp
  have p1: "mset (map fst ([(2, (1, 0, 0, 0)), (0, (5, 0, 0, 0)), (3, (15, 0, 0, 0)), (1, (2, 0, 0, 0))] :: (int \<times> payload) list)) = mset (py_range 4)"
    by (simp add: py_range_4)
  have f1: "units_of (tick_buffer main_init) 7 = []"
    by (simp add: main_init_def units_of_def)
  have p2: "mset (map fst ([(2, 1), (0, 5), (3, 15), (1, 2)] :: (int \<times> int) list)) = mset (py_range NUM_SLAVES)"
    by (simp add: py_range_NUM_SLAVES)
  have f2: "units_of (self_tick_buffer dashboard_init) 7 = []"
    by (simp add: dashboard_init_def units_of_def)
  have h1: "has_all (units_of (tick_buffer (main_init\<lparr>tick_buffer := [(7, ([(2, (1, 0, 0, 0)), (0, (5, 0, 0, 0)), (3, (15, 0, 0, 0)), (1, (2, 0, 0, 0))] :: (int \<times> payload) list))]\<rparr>)) 7) 4"
    by code_simp
  have h2: "has_all (units_of (self_tick_buffer (dashboard_init\<lparr>self_tick_buffer := [(7, ([(2, 1), (0, 5), (3, 15), (1, 2)] :: (int \<times> int) list))]\<rparr>)) 7) NUM_SLAVES"
    by code_simp
  have b: "ordered_bits (\<lambda>s. the (map_of ([(2, 1), (0, 5), (3, 15), (1, 2)] :: (int \<times> int) list) s)) NUM_SLAVES 4
      = [1, 0, 1, 0, 0, 1, 0, 0, 1, 0, 0, 0, 1, 1, 1, 1]"
    by code_simp
  note ca = tick_completion [where width = 4, THEN conjunct1, THEN mp,
      OF conjI [OF one conjI [OF p1 f1]]]
  note cb = tick_completion [where g = "\<lparr>k_val = 300, t_val = 1 / 5, anneal_active = False, t_start = 7 / 20, t_end = 1 / 20\<rparr>",
      THEN conjunct2, THEN conjunct1, THEN mp, OF conjI [OF p2 f2]]
  note cc = tick_completion [where width = 4 and sidx = 0 and p = "(0, 0, 0, 0)",
      THEN conjunct2, THEN conjunct2, THEN conjunct1, THEN mp, OF conjI [OF one h1]]
  note cd = tick_completion [where g = "\<lparr>k_val = 300, t_val = 1 / 5, anneal_active = False, t_start = 7 / 20, t_end = 1 / 20\<rparr>" and sidx = 0 and bmask = 0,
      THEN conjunct2, THEN conjunct2, THEN conjunct2, THEN mp, OF h2]
  show ?thesis
    by (intro conjI one p1 f1 ca p2 f2 cb [THEN conjunct1] cb [THEN conjunct2]
        h1 cc h2 cd [THEN conjunct1] cd [THEN conjunct2] b)
qed

section \<open>A unit that never reports\<close>

lemma map_of_fold_delete:
  "map_of (fold AList.delete ks buf) t = (if t \<in> set ks then None else map_of buf t)"
proof (induction ks arbitrary: buf)
  case Nil
  show ?case by simp
next
  case (Cons k ks)
  show ?case
    by (simp add: Cons.IH delete_conv')
qed

lemma units_of_cleanup:
  "units_of (cleanup buf) t = units_of buf t \<or> units_of (cleanup buf) t = []"
  by (simp add: cleanup_def units_of_def map_of_fold_delete)

lemma missing_after_cleanup:
  "map_of (units_of buf t) u = None \<Longrightarrow> map_of (units_of (cleanup buf) t) u = None"
  using units_of_cleanup [of buf t] by auto

lemma missing_after_store:
  assumes "map_of (units_of buf t) u = None" and "\<not> (tick = t \<and> sidx = u)"
  shows "map_of (units_of (store tick sidx p buf) t) u = None"
proof (cases "tick = t")
  case True
  with assms(2) have "sidx \<noteq> u" by simp
  with assms(1) True show ?thesis
    by (simp add: units_of_store_same update_conv')
next
  case False
  then have "units_of (store tick sidx p buf) t = units_of buf t"
    by (simp add: units_of_store_other)
  with assms(1) show ?thesis by simp
qed

lemma has_all_present: "has_all d n \<Longrightarrow> 0 \<le> u \<Longrightarrow> u < n \<Longrightarrow> map_of d u \<noteq> None"
  by (simp add: has_all_def list_all_iff set_py_range)

lemma main_ingest_missing:
  assumes u: "0 \<le> u" "u < n"
    and miss: "map_of (units_of (tick_buffer st) t) u = None"
    and other: "\<not> (tick = t \<and> sidx = u)"
    and step: "main_ingest n width edges st tick sidx p = Inr (st', out)"
  shows "map_of (units_of (tick_buffer st') t) u = None"
    and "list_all (\<lambda>x. s_tick x \<noteq> t) (case out of None \<Rightarrow> [] | Some x \<Rightarrow> [x])"
proof -
  let ?buf = "store tick sidx p (tick_buffer st)"
  have m: "map_of (units_of ?buf t) u = None"
    using miss other by (rule missing_after_store)
  have "tick_buffer st' = ?buf \<or> tick_buffer st' = cleanup ?buf"
    using step by (auto simp: main_ingest_def Let_def split: if_splits sum.splits)
  with m missing_after_cleanup [OF m] show "map_of (units_of (tick_buffer st') t) u = None"
    by auto
  show "list_all (\<lambda>x. s_tick x \<noteq> t) (case out of None \<Rightarrow> [] | Some x \<Rightarrow> [x])"
  proof (cases out)
    case None
    then show ?thesis by simp
  next
    case (Some x)
    with step have s: "main_ingest n width edges st tick sidx p = Inr (st', Some x)"
      by simp
    have "s_tick x \<noteq> t"
    proof
      assume "s_tick x = t"
      with main_ingest_SomeD(2) [OF s] have "tick = t" by simp
      with main_ingest_SomeD(1) [OF s] have "has_all (units_of ?buf t) n" by simp
      from has_all_present [OF this u] m show False by simp
    qed
    with Some show ?thesis by simp
  qed
qed

lemma main_run_missing:
  assumes "0 \<le> u" "u < n"
    and "map_of (units_of (tick_buffer st) t) u = None"
    and "list_all (\<lambda>(tick, sidx, p). \<not> (tick = t \<and> sidx = u)) rs"
    and "main_run n width edges st rs = Inr (st', outs)"
  shows "list_all (\<lambda>x. s_tick x \<noteq> t) outs"
  using assms(3-5)
proof (induction rs arbitrary: st outs)
  case Nil
  then show ?case by simp
next
  case (Cons r rs)
  obtain tick sidx p where r: "r = (tick, sidx, p)" by (cases r)
  from Cons.prems(3) obtain st1 out outs1 where
    s: "main_ingest n width edges st tick sidx p = Inr (st1, out)"
    and t: "main_run n width edges st1 rs = Inr (st', outs1)"
    and o: "outs = (case out of None \<Rightarrow> [] | Some x \<Rightarrow> [x]) @ outs1"
    by (auto simp: r split: sum.splits)
  from Cons.prems(2) have other: "\<not> (tick = t \<and> sidx = u)"
    and rest: "list_all (\<lambda>(tick, sidx, p). \<not> (tick = t \<and> sidx = u)) rs"
    by (simp_all add: r)
  note step = main_ingest_missing [OF assms(1,2) Cons.prems(1) other s]
  from Cons.IH [OF step(1) rest t] step(2) show ?case
    by (simp add: o)
qed

lemma update_ingest_missing:
  assumes u: "0 \<le> u" "u < NUM_SLAVES"
    and miss: "map_of (units_of (self_tick_buffer st) t) u = None"
    and other: "\<not> (tick = t \<and> sidx = u)"
  shows "map_of (units_of (self_tick_buffer (update_ingest g st tick sidx bmask)) t) u = None"
    and "\<exists>out. self_all_samples (update_ingest g st tick sidx bmask) = self_all_samples st @ out
      \<and> list_all (\<lambda>x. s_tick x \<noteq> t) out"
proof -
  let ?buf = "store tick sidx bmask (self_tick_buffer st)"
  let ?st' = "update_ingest g st tick sidx bmask"
  have m: "map_of (units_of ?buf t) u = None"
    using miss other by (rule missing_after_store)
  have "self_tick_buffer ?st' = ?buf \<or> self_tick_buffer ?st' = cleanup ?buf"
    by (simp add: update_ingest_eq Let_def record_sample_def)
  with m missing_after_cleanup [OF m]
  show "map_of (units_of (self_tick_buffer ?st') t) u = None"
    by auto
  show "\<exists>out. self_all_samples ?st' = self_all_samples st @ out
      \<and> list_all (\<lambda>x. s_tick x \<noteq> t) out"
  proof (cases "has_all (units_of ?buf tick) NUM_SLAVES")
    case False
    then have "self_all_samples ?st' = self_all_samples st @ []"
      by (simp add: update_ingest_eq Let_def)
    then show ?thesis by (intro exI [of _ "[]"]) simp
  next
    case True
    have "tick \<noteq> t"
    proof
      assume "tick = t"
      with True have "has_all (units_of ?buf t) NUM_SLAVES" by simp
      from has_all_present [OF this u] m show False by simp
    qed
    moreover from True obtain sc bits where
      "self_all_samples ?st' = self_all_samples st @ [\<lparr>s_tick = tick, s_score = sc, s_bits = bits\<rparr>]"
      by (simp add: update_ingest_eq Let_def self_all_samples_record_sample)
    ultimately show ?thesis
      by (intro exI [of _ "[\<lparr>s_tick = tick, s_score = sc, s_bits = bits\<rparr>]"]) simp
  qed
qed

lemma update_run_missing:
  assumes "0 \<le> u" "u < NUM_SLAVES"
    and "map_of (units_of (self_tick_buffer st) t) u = None"
    and "list_all (\<lambda>(tick, sidx, b). \<not> (tick = t \<and> sidx = u)) rs"
  shows "\<exists>outs. self_all_samples (update_run g st rs) = self_all_samples st @ outs
      \<and> list_all (\<lambda>x. s_tick x \<noteq> t) outs"
  using assms(3,4)
proof (induction rs arbitrary: st)
  case Nil
  show ?case by (intro exI [of _ "[]"]) simp
next
  case (Cons r rs)
  obtain tick sidx b where r: "r = (tick, sidx, b)" by (cases r)
  let ?st1 = "update_ingest g st tick sidx b"
  from Cons.prems(2) have other: "\<not> (tick = t \<and> sidx = u)"
    and rest: "list_all (\<lambda>(tick, sidx, b). \<not> (tick = t \<and> sidx = u)) rs"
    by (simp_all add: r)
  note step = update_ingest_missing [OF assms(1,2) Cons.prems(1) other, of g b]
  from step(2) obtain out where
    o: "self_all_samples ?st1 = self_all_samples st @ out" "list_all (\<lambda>x. s_tick x \<noteq> t) out"
    by blast
  from Cons.IH [OF step(1) rest] obtain outs where
    os: "self_all_samples (update_run g ?st1 rs) = self_all_samples ?st1 @ outs"
      "list_all (\<lambda>x. s_tick x \<noteq> t) outs"
    by blast
  have "self_all_samples (update_run g st (r # rs)) = self_all_samples st @ (out @ outs)"
    using o(1) os(1) by (simp add: r)
  moreover have "list_all (\<lambda>x. s_tick x \<noteq> t) (out @ outs)"
    using o(2) os(2) by simp
  ultimately show ?case by blast
qed

text \<open>
  C4. A tick is scored only when the dict of its units, after the record is stored, has
  every index \<open>0..n-1\<close>: with a gap below \<open>n\<close> (also when the dict has \<open>n\<close> or more
  other indices) the ingest scores no sample, in the console client and in the dashboard
  (where \<open>n\<close> is \<open>NUM_SLAVES = 4\<close>). A sample that is scored carries the tick of the
  record, and its bits are the decoded bits of the units \<open>0..n-1\<close> concatenated in
  ascending index order. Over a whole run of records: when a unit \<open>u < n\<close> of tick \<open>t\<close>
  is not recorded at the start and no record of the run is for unit \<open>u\<close> of tick \<open>t\<close>,
  no sample of the run has tick \<open>t\<close>, whatever else arrives and whatever is evicted.
\<close>

theorem completion_needs_every_unit:
  fixes st :: main_state and ds :: dashboard and tick sidx bmask :: int and p :: payload
  defines "d \<equiv> units_of (store tick sidx p (tick_buffer st)) tick"
    and "e \<equiv> units_of (store tick sidx bmask (self_tick_buffer ds)) tick"
  shows "(\<not> has_all d n \<longrightarrow>
            (\<forall>st' smp. main_ingest n width edges st tick sidx p \<noteq> Inr (st', Some smp)))
    \<and> (\<forall>st' smp. main_ingest n width edges st tick sidx p = Inr (st', Some smp) \<longrightarrow>
          has_all d n \<and> s_tick smp = tick
          \<and> s_bits smp = ordered_bits (\<lambda>s. fst (the (map_of d s))) n width)
    \<and> (\<not> has_all e NUM_SLAVES \<longrightarrow>
          self_all_samples (update_ingest g ds tick sidx bmask) = self_all_samples ds
          \<and> self_sample_count (update_ingest g ds tick sidx bmask) = self_sample_count ds)
    \<and> (has_all e NUM_SLAVES \<longrightarrow>
          (\<exists>score. self_all_samples (update_ingest g ds tick sidx bmask) =
             self_all_samples ds @
               [\<lparr>s_tick = tick, s_score = score,
                 s_bits = ordered_bits (\<lambda>s. the (map_of e s)) NUM_SLAVES 4\<rparr>]))
    \<and> (0 \<le> u \<and> u < n \<and> map_of (units_of (tick_buffer st) t) u = None
          \<and> list_all (\<lambda>(tick, sidx, p). \<not> (tick = t \<and> sidx = u)) rs
          \<and> main_run n width edges st rs = Inr (st2, outs)
        \<longrightarrow> list_all (\<lambda>x. s_tick x \<noteq> t) outs)
    \<and> (0 \<le> v \<and> v < NUM_SLAVES \<and> map_of (units_of (self_tick_buffer ds) t) v = None
          \<and> list_all (\<lambda>(tick, sidx, b). \<not> (tick = t \<and> sidx = v)) rs'
        \<longrightarrow> (\<exists>outs. self_all_samples (update_run g ds rs') = self_all_samples ds @ outs
              \<and> list_all (\<lambda>x. s_tick x \<noteq> t) outs))"
proof -
  have r1: "list_all (\<lambda>x. s_tick x \<noteq> t) outs"
    if "0 \<le> u \<and> u < n \<and> map_of (units_of (tick_buffer st) t) u = None
          \<and> list_all (\<lambda>(tick, sidx, p). \<not> (tick = t \<and> sidx = u)) rs
          \<and> main_run n width edges st rs = Inr (st2, outs)"
    using that main_run_missing [of u n st t rs width edges st2 outs] by blast
  have r2: "\<exists>outs. self_all_samples (update_run g ds rs') = self_all_samples ds @ outs
              \<and> list_all (\<lambda>x. s_tick x \<noteq> t) outs"
    if "0 \<le> v \<and> v < NUM_SLAVES \<and> map_of (units_of (self_tick_buffer ds) t) v = None
          \<and> list_all (\<lambda>(tick, sidx, b). \<not> (tick = t \<and> sidx = v)) rs'"
    using that update_run_missing [of v ds t rs' g] by blast
  have a: "has_all d n \<and> s_tick smp = tick
      \<and> s_bits smp = ordered_bits (\<lambda>s. fst (the (map_of d s))) n width"
    if "main_ingest n width edges st tick sidx p = Inr (st', Some smp)" for st' smp
    unfolding d_def using main_ingest_SomeD(1-3) [OF that] by simp
  have b: "self_all_samples (update_ingest g ds tick sidx bmask) = self_all_samples ds
      \<and> self_sample_count (update_ingest g ds tick sidx bmask) = self_sample_count ds"
    if "\<not> has_all e NUM_SLAVES"
    using that unfolding e_def by (simp add: update_ingest_eq Let_def)
  have c: "\<exists>score. self_all_samples (update_ingest g ds tick sidx bmask) =
      self_all_samples ds @
        [\<lparr>s_tick = tick, s_score = score,
          s_bits = ordered_bits (\<lambda>s. the (map_of e s)) NUM_SLAVES 4\<rparr>]"
    if "has_all e NUM_SLAVES"
    using that unfolding e_def
    by (simp add: update_ingest_eq Let_def self_all_samples_record_sample)
  from a b c r1 r2 show ?thesis by blast
qed

theorem completion_needs_every_unit_witness:
  "\<not> has_all (units_of (store 9 4 (6, 0, 0, 0)
        (tick_buffer (main_init\<lparr>tick_buffer := [(9, [(0, (5, 0, 0, 0)), (2, (1, 0, 0, 0)), (3, (15, 0, 0, 0))])]\<rparr>))) 9) 4
   \<and> (\<forall>st' smp. main_ingest 4 4 (build_edges 16)
          (main_init\<lparr>tick_buffer := [(9, [(0, (5, 0, 0, 0)), (2, (1, 0, 0, 0)), (3, (15, 0, 0, 0))])]\<rparr>)
          9 4 (6, 0, 0, 0) \<noteq> Inr (st', Some smp))
   \<and> main_ingest 4 4 (build_edges 16)
          (main_init\<lparr>tick_buffer := [(9, [(0, (5, 0, 0, 0)), (2, (1, 0, 0, 0)), (3, (15, 0, 0, 0))])]\<rparr>)
          9 1 (2, 0, 0, 0)
        = Inr (\<lparr>best_score = 8,
                best_bits = Some [1, 0, 1, 0, 0, 1, 0, 0, 1, 0, 0, 0, 1, 1, 1, 1],
                best_tick = Some 9,
                tick_buffer = [(9, [(0, (5, 0, 0, 0)), (2, (1, 0, 0, 0)), (3, (15, 0, 0, 0)), (1, (2, 0, 0, 0))])]\<rparr>,
               Some \<lparr>s_tick = 9, s_score = 8,
                 s_bits = [1, 0, 1, 0, 0, 1, 0, 0, 1, 0, 0, 0, 1, 1, 1, 1]\<rparr>)
   \<and> has_all (units_of (store 9 1 (2, 0, 0, 0)
        (tick_buffer (main_init\<lparr>tick_buffer := [(9, [(0, (5, 0, 0, 0)), (2, (1, 0, 0, 0)), (3, (15, 0, 0, 0))])]\<rparr>))) 9) 4
   \<and> [1, 0, 1, 0, 0, 1, 0, 0, 1, 0, 0, 0, 1, 1, 1, 1] =
        ordered_bits (\<lambda>s. fst (the (map_of (units_of (store 9 1 (2, 0, 0, 0)
          (tick_buffer (main_init\<lparr>tick_buffer := [(9, [(0, (5, 0, 0, 0)), (2, (1, 0, 0, 0)), (3, (15, 0, 0, 0))])]\<rparr>))) 9) s))) 4 4
   \<and> \<not> has_all (units_of (store 9 3 15
        (self_tick_buffer (dashboard_init\<lparr>self_tick_buffer := [(9, [(0, 5), (2, 1)])]\<rparr>))) 9) NUM_SLAVES
   \<and> self_all_samples (update_ingest \<lparr>k_val = 300, t_val = 1 / 5, anneal_active = False, t_start = 7 / 20, t_end = 1 / 20\<rparr>
          (dashboard_init\<lparr>self_tick_buffer := [(9, [(0, 5), (2, 1)])]\<rparr>) 9 3 15) = []
   \<and> has_all (units_of (store 9 1 2
        (self_tick_buffer (dashboard_init\<lparr>self_tick_buffer := [(9, [(0, 5), (2, 1), (3, 15)])]\<rparr>))) 9) NUM_SLAVES
   \<and> self_all_samples (update_ingest \<lparr>k_val = 300, t_val = 1 / 5, anneal_active = False, t_start = 7 / 20, t_end = 1 / 20\<rparr>
          (dashboard_init\<lparr>self_tick_buffer := [(9, [(0, 5), (2, 1), (3, 15)])]\<rparr>) 9 1 2)
        = [\<lparr>s_tick = 9, s_score = 8, s_bits = [1, 0, 1, 0, 0, 1, 0, 0, 1, 0, 0, 0, 1, 1, 1, 1]\<rparr>]
   \<and> map_of (units_of (tick_buffer main_init) 9) 1 = None
   \<and> list_all (\<lambda>(tick, sidx, p). \<not> (tick = 9 \<and> sidx = 1))
        ([(9, 0, (5, 0, 0, 0)), (8, 0, (5, 0, 0, 0)), (9, 2, (1, 0, 0, 0)), (8, 2, (1, 0, 0, 0)), (9, 3, (15, 0, 0, 0)), (8, 1, (2, 0, 0, 0)), (9, 4, (6, 0, 0, 0)), (8, 3, (15, 0, 0, 0))] :: (int \<times> int \<times> payload) list)
   \<and> main_run 4 4 (build_edges 16) main_init [(9, 0, (5, 0, 0, 0)), (8, 0, (5, 0, 0, 0)), (9, 2, (1, 0, 0, 0)), (8, 2, (1, 0, 0, 0)), (9, 3, (15, 0, 0, 0)), (8, 1, (2, 0, 0, 0)), (9, 4, (6, 0, 0, 0)), (8, 3, (15, 0, 0, 0))]
        = Inr (\<lparr>best_score = 8, best_bits = Some [1, 0, 1, 0, 0, 1, 0, 0, 1, 0, 0, 0, 1, 1, 1, 1], best_tick = Some 8,
            tick_buffer =
              [(9, [(0, (5, 0, 0, 0)), (2, (1, 0, 0, 0)), (3, (15, 0, 0, 0)), (4, (6, 0, 0, 0))]),
               (8, [(0, (5, 0, 0, 0)), (2, (1, 0, 0, 0)), (1, (2, 0, 0, 0)), (3, (15, 0, 0, 0))])]\<rparr>,
            [\<lparr>s_tick = 8, s_score = 8, s_bits = [1, 0, 1, 0, 0, 1, 0, 0, 1, 0, 0, 0, 1, 1, 1, 1]\<rparr>])
   \<and> list_all (\<lambda>x. s_tick x \<noteq> 9) [\<lparr>s_tick = 8, s_score = 8, s_bits = [1, 0, 1, 0, 0, 1, 0, 0, 1, 0, 0, 0, 1, 1, 1, 1]\<rparr>]
   \<and> map_of (units_of (self_tick_buffer dashboard_init) 9) 1 = None
   \<and> list_all (\<lambda>(tick, sidx, b). \<not> (tick = 9 \<and> sidx = 1))
        ([(9, 0, 5), (8, 0, 5), (9, 2, 1), (8, 2, 1), (9, 3, 15), (8, 1, 2), (9, 4, 6), (8, 3, 15)] :: (int \<times> int \<times> int) list)
   \<and> (\<exists>outs. self_all_samples (update_run \<lparr>k_val = 300, t_val = 1 / 5, anneal_active = False, t_start = 7 / 20, t_end = 1 / 20\<rparr> dashboard_init [(9, 0, 5), (8, 0, 5), (9, 2, 1), (8, 2, 1), (9, 3, 15), (8, 1, 2), (9, 4, 6), (8, 3, 15)])
          = self_all_samples dashboard_init @ outs
        \<and> list_all (\<lambda>x. s_tick x \<noteq> 9) outs)"
proof -
  let ?S = "main_init\<lparr>tick_buffer := [(9, [(0, (5, 0, 0, 0)), (2, (1, 0, 0, 0)), (3, (15, 0, 0, 0))])]\<rparr>"
  let ?D2 = "dashboard_init\<lparr>self_tick_buffer := [(9, [(0, 5), (2, 1)])]\<rparr>"
  let ?D3 = "dashboard_init\<lparr>self_tick_buffer := [(9, [(0, 5), (2, 1), (3, 15)])]\<rparr>"
  let ?g = "\<lparr>k_val = 300, t_val = 1 / 5, anneal_active = False, t_start = 7 / 20, t_end = 1 / 20\<rparr>"
  let ?bits = "[1, 0, 1, 0, 0, 1, 0, 0, 1, 0, 0, 0, 1, 1, 1, 1] :: int list"
  let ?S' = "\<lparr>best_score = 8, best_bits = Some ?bits, best_tick = Some 9,
     tick_buffer = [(9, [(0, (5, 0, 0, 0)), (2, (1, 0, 0, 0)), (3, (15, 0, 0, 0)), (1, (2, 0, 0, 0))])]\<rparr>"
  let ?smp = "\<lparr>s_tick = 9, s_score = 8, s_bits = ?bits\<rparr>"
  have gap1: "\<not> has_all (units_of (store 9 4 (6, 0, 0, 0) (tick_buffer ?S)) 9) 4"
    by code_simp
  have run1: "main_ingest 4 4 (build_edges 16) ?S 9 1 (2, 0, 0, 0) = Inr (?S', Some ?smp)"
    by code_simp
  have gap2: "\<not> has_all (units_of (store 9 3 15 (self_tick_buffer ?D2)) 9) NUM_SLAVES"
    by code_simp
  have all2: "has_all (units_of (store 9 1 2 (self_tick_buffer ?D3)) 9) NUM_SLAVES"
    by code_simp
  have old: "self_all_samples ?D2 = []" "self_all_samples ?D3 = []"
    by (simp_all add: dashboard_init_def)
  note a = completion_needs_every_unit [where st = ?S and tick = 9 and sidx = 4 and p = "(6, 0, 0, 0)"
      and n = 4 and width = 4 and edges = "build_edges 16" and ds = ?D2 and bmask = 15 and g = ?g]
  note b = completion_needs_every_unit [where st = ?S and tick = 9 and sidx = 1 and p = "(2, 0, 0, 0)"
      and n = 4 and width = 4 and edges = "build_edges 16" and ds = ?D3 and bmask = 2 and g = ?g]
  from a gap1 have c1: "\<forall>st' smp. main_ingest 4 4 (build_edges 16) ?S 9 4 (6, 0, 0, 0) \<noteq> Inr (st', Some smp)"
    by blast
  note a2 = completion_needs_every_unit [where st = ?S and tick = 9 and sidx = 3 and p = "(6, 0, 0, 0)"
      and n = 4 and width = 4 and edges = "build_edges 16" and ds = ?D2 and bmask = 15 and g = ?g]
  from a2 gap2 have c2: "self_all_samples (update_ingest ?g ?D2 9 3 15) = []"
    by (simp add: old)
  from b run1 have c3: "has_all (units_of (store 9 1 (2, 0, 0, 0) (tick_buffer ?S)) 9) 4
      \<and> ?bits = ordered_bits (\<lambda>s. fst (the (map_of (units_of (store 9 1 (2, 0, 0, 0) (tick_buffer ?S)) 9) s))) 4 4"
    by (metis sample.select_convs(3))
  have m1: "map_of (units_of (tick_buffer main_init) 9) 1 = None"
    by (simp add: main_init_def units_of_def)
  have l1: "list_all (\<lambda>(tick, sidx, p). \<not> (tick = 9 \<and> sidx = 1))
      ([(9, 0, (5, 0, 0, 0)), (8, 0, (5, 0, 0, 0)), (9, 2, (1, 0, 0, 0)), (8, 2, (1, 0, 0, 0)), (9, 3, (15, 0, 0, 0)), (8, 1, (2, 0, 0, 0)), (9, 4, (6, 0, 0, 0)), (8, 3, (15, 0, 0, 0))] :: (int \<times> int \<times> payload) list)"
    by simp
  have run2: "main_run 4 4 (build_edges 16) main_init [(9, 0, (5, 0, 0, 0)), (8, 0, (5, 0, 0, 0)), (9, 2, (1, 0, 0, 0)), (8, 2, (1, 0, 0, 0)), (9, 3, (15, 0, 0, 0)), (8, 1, (2, 0, 0, 0)), (9, 4, (6, 0, 0, 0)), (8, 3, (15, 0, 0, 0))]
      = Inr (\<lparr>best_score = 8, best_bits = Some [1, 0, 1, 0, 0, 1, 0, 0, 1, 0, 0, 0, 1, 1, 1, 1], best_tick = Some 8,
            tick_buffer =
              [(9, [(0, (5, 0, 0, 0)), (2, (1, 0, 0, 0)), (3, (15, 0, 0, 0)), (4, (6, 0, 0, 0))]),
               (8, [(0, (5, 0, 0, 0)), (2, (1, 0, 0, 0)), (1, (2, 0, 0, 0)), (3, (15, 0, 0, 0))])]\<rparr>,
          [\<lparr>s_tick = 8, s_score = 8, s_bits = [1, 0, 1, 0, 0, 1, 0, 0, 1, 0, 0, 0, 1, 1, 1, 1]\<rparr>])"
    by code_simp
  have u: "(0 :: int) \<le> 1" "(1 :: int) < 4" "(1 :: int) < NUM_SLAVES"
    by (simp_all add: NUM_SLAVES_def)
  note r1 = completion_needs_every_unit [where n = 4 and width = 4 and edges = "build_edges 16"
      and st = main_init and u = 1 and t = 9, THEN conjunct2, THEN conjunct2, THEN conjunct2,
      THEN conjunct2, THEN conjunct1, THEN mp,
      OF conjI [OF u(1) conjI [OF u(2) conjI [OF m1 conjI [OF l1 run2]]]]]
  have m2: "map_of (units_of (self_tick_buffer dashboard_init) 9) 1 = None"
    by (simp add: dashboard_init_def units_of_def)
  have l2: "list_all (\<lambda>(tick, sidx, b). \<not> (tick = 9 \<and> sidx = 1))
      ([(9, 0, 5), (8, 0, 5), (9, 2, 1), (8, 2, 1), (9, 3, 15), (8, 1, 2), (9, 4, 6), (8, 3, 15)] :: (int \<times> int \<times> int) list)"
    by simp
  note r2 = completion_needs_every_unit [where ds = dashboard_init and v = 1 and t = 9
      and g = "\<lparr>k_val = 300, t_val = 1 / 5, anneal_active = False, t_start = 7 / 20, t_end = 1 / 20\<rparr>",
      THEN conjunct2, THEN conjunct2, THEN conjunct2,
      THEN conjunct2, THEN conjunct2, THEN mp,
      OF conjI [OF u(1) conjI [OF u(3) conjI [OF m2 l2]]]]
  have last: "self_all_samples (update_ingest ?g ?D3 9 1 2) = [?smp]"
    by code_simp
  show ?thesis
    by (intro conjI gap1 c1 run1 c3 [THEN conjunct1] c3 [THEN conjunct2] gap2 c2 all2 last
        m1 l1 run2 r1 m2 l2 r2)
qed

end
